theory Spec2Isabelle
  imports Main
begin

section \<open>Machine integers of the C++ source\<close>

text \<open>
  The pool counts threads in \<^verbatim>\<open>unsigned\<close> (32 bits, wrapping) and the barrier counts in
  \<^verbatim>\<open>int\<close>. Thread ids and counts are natural numbers here, with the wrap-around and
  the conversions of the source written out.
\<close>

definition u32 :: "nat \<Rightarrow> nat" where
  "u32 n = n mod 2 ^ 32"

definition int_of_unsigned :: "nat \<Rightarrow> int" where
  \<comment> \<open>an \<^verbatim>\<open>unsigned\<close> argument passed to an \<^verbatim>\<open>int\<close> parameter\<close>
  "int_of_unsigned n = (if u32 n < 2 ^ 31 then int (u32 n) else int (u32 n) - 2 ^ 32)"

definition s32 :: "int \<Rightarrow> int" where
  \<comment> \<open>the value an \<^verbatim>\<open>int\<close> holds after an addition\<close>
  "s32 x = (x + 2 ^ 31) mod 2 ^ 32 - 2 ^ 31"

section \<open>Semaphore and the thread primitives, with the answers of the OS\<close>

text \<open>
  Modelled from the spec: \<^verbatim>\<open>GALOIS_DIE\<close> is a macro of \<^verbatim>\<open>Galois/Runtime/ll/gio.h\<close>, which
  is not among the sources; by the spec the process terminates immediately with a
  diagnostic identifying the failing primitive. The model of the diagnostic is the
  source line of the call and its message argument; nothing runs after it.
\<close>

datatype fatal = Fatal nat string

definition GALOIS_DIE :: "nat \<Rightarrow> string \<Rightarrow> fatal" where
  "GALOIS_DIE line msg = Fatal line msg"

datatype primitive = sem_init | sem_destroy | sem_post | sem_wait | pthread_create | pthread_join

fun die_line :: "primitive \<Rightarrow> nat" where
  \<comment> \<open>the line of the \<^verbatim>\<open>GALOIS_DIE\<close> that follows the check of the primitive\<close>
  "die_line sem_init = 58"
| "die_line sem_destroy = 63"
| "die_line sem_post = 70"
| "die_line sem_wait = 80"
| "die_line pthread_create = 180"
| "die_line pthread_join = 193"

text \<open>
  A call returns, ends the process, or is still waiting for an answer of the OS when
  the list of answers given to it is used up.
\<close>

datatype 'a outcome = Returns 'a | Dies fatal | Waits

definition EINTR :: int where
  "EINTR = 4"

definition Semaphore_ctor :: "int \<Rightarrow> int \<Rightarrow> unit outcome" where
  \<comment> \<open>\<^verbatim>\<open>if (sem_init(&sem, 0, val)) GALOIS_DIE("PTHREAD")\<close>, line 58\<close>
  "Semaphore_ctor val rc = (if rc \<noteq> 0 then Dies (GALOIS_DIE (die_line sem_init) ''PTHREAD'') else Returns ())"

definition Semaphore_dtor :: "int \<Rightarrow> unit outcome" where
  \<comment> \<open>\<^verbatim>\<open>if (sem_destroy(&sem)) GALOIS_DIE("PTHREAD")\<close>, line 63\<close>
  "Semaphore_dtor rc = (if rc \<noteq> 0 then Dies (GALOIS_DIE (die_line sem_destroy) ''PTHREAD'') else Returns ())"

text \<open>
  \<^verbatim>\<open>release(n)\<close>: \<^verbatim>\<open>while (n) { --n; if (sem_post(&sem)) GALOIS_DIE("PTHREAD"); }\<close>. The
  first argument is the number of iterations left (every caller passes the default 1),
  the second the return codes of the coming \<^verbatim>\<open>sem_post\<close> calls; the codes not used
  are returned.
\<close>

fun Semaphore_release :: "nat \<Rightarrow> int list \<Rightarrow> int list outcome" where
  "Semaphore_release 0 rcs = Returns rcs"
| "Semaphore_release (Suc n) [] = Waits"
| "Semaphore_release (Suc n) (rc # rcs) =
     (if rc \<noteq> 0 then Dies (GALOIS_DIE (die_line sem_post) ''PTHREAD'') else Semaphore_release n rcs)"

text \<open>
  The inner loop of \<^verbatim>\<open>acquire\<close>:
  \<^verbatim>\<open>while (((rc = sem_wait(&sem)) < 0) && (errno == EINTR)) { }\<close>. An answer is the return
  code with the value of \<^verbatim>\<open>errno\<close>; the result is the code the loop ends with.
\<close>

fun sem_wait_loop :: "(int \<times> int) list \<Rightarrow> (int \<times> (int \<times> int) list) option" where
  "sem_wait_loop [] = None"
| "sem_wait_loop ((rc, errno) # answers) =
     (if rc < 0 \<and> errno = EINTR then sem_wait_loop answers else Some (rc, answers))"

definition interrupted :: "int \<times> int \<Rightarrow> bool" where
  \<comment> \<open>an answer of \<^verbatim>\<open>sem_wait\<close> on which the inner loop goes round again\<close>
  "interrupted a \<longleftrightarrow> fst a < 0 \<and> snd a = EINTR"

fun Semaphore_acquire :: "nat \<Rightarrow> (int \<times> int) list \<Rightarrow> (int \<times> int) list outcome" where
  "Semaphore_acquire 0 answers = Returns answers"
| "Semaphore_acquire (Suc n) answers =
     (case sem_wait_loop answers of
        None \<Rightarrow> Waits
      | Some (rc, answers') \<Rightarrow>
          (if rc \<noteq> 0 then Dies (GALOIS_DIE (die_line sem_wait) ''PTHREAD'') else Semaphore_acquire n answers'))"

text \<open>
  The two loops over the thread handles:
  \<^verbatim>\<open>for (i = 1; i < maxThreads; ++i) if (pthread_create(...)) GALOIS_DIE("PTHREAD")\<close> of the
  constructor (line 180) and the same loop with \<^verbatim>\<open>pthread_join\<close> of the destructor
  (line 193).
\<close>

fun create_threads :: "nat \<Rightarrow> nat \<Rightarrow> int list \<Rightarrow> int list outcome" where
  "create_threads i mt [] = (if i < mt then Waits else Returns [])"
| "create_threads i mt (rc # rcs) =
     (if i < mt
      then (if rc \<noteq> 0 then Dies (GALOIS_DIE (die_line pthread_create) ''PTHREAD'') else create_threads (i + 1) mt rcs)
      else Returns (rc # rcs))"

fun join_threads :: "nat \<Rightarrow> nat \<Rightarrow> int list \<Rightarrow> int list outcome" where
  "join_threads i mt [] = (if i < mt then Waits else Returns [])"
| "join_threads i mt (rc # rcs) =
     (if i < mt
      then (if rc \<noteq> 0 then Dies (GALOIS_DIE (die_line pthread_join) ''PTHREAD'') else join_threads (i + 1) mt rcs)
      else Returns (rc # rcs))"

section \<open>ThinBarrier\<close>

text \<open>
  \<^verbatim>\<open>class ThinBarrier { volatile int started; ... }\<close>: the barrier is its counter. The
  constructor \<^verbatim>\<open>ThinBarrier(int v) { }\<close> has an empty body and no initialiser, so the
  counter keeps what the object's storage held before; the storage content is the
  second argument.
\<close>

type_synonym ThinBarrier = int

definition ThinBarrier_ctor :: "int \<Rightarrow> ThinBarrier \<Rightarrow> ThinBarrier" where
  "ThinBarrier_ctor v storage = storage"

definition ThinBarrier_release :: "ThinBarrier \<Rightarrow> ThinBarrier" where
  \<comment> \<open>\<^verbatim>\<open>__sync_fetch_and_add(&started, 1)\<close>; the argument \<^verbatim>\<open>n\<close> is not used\<close>
  "ThinBarrier_release b = s32 (b + 1)"

definition ThinBarrier_passable :: "ThinBarrier \<Rightarrow> int \<Rightarrow> bool" where
  \<comment> \<open>\<^verbatim>\<open>acquire(n)\<close> spins \<^verbatim>\<open>while (started < n)\<close>; it returns once this holds\<close>
  "ThinBarrier_passable b n \<longleftrightarrow> \<not> b < n"

definition ThinBarrier_reset :: "ThinBarrier \<Rightarrow> ThinBarrier" where
  "ThinBarrier_reset b = 0"

section \<open>The pool and its threads\<close>

datatype handle = NoThread | Created | Running nat

datatype action = InitTID nat | InitPTS | BindThreadToProcessor nat | StartedRelease

datatype dtor_action = SetShutdown | ClearWork | ReleaseGate nat | JoinThread nat | FreeArrays

text \<open>
  Program points of a spawned thread (\<^verbatim>\<open>slaunch\<close>, then \<^verbatim>\<open>launch\<close>) and of the
  thread that owns the pool (constructor, \<^verbatim>\<open>runInternal\<close>, destructor). A point stands
  before the next access to shared memory; local variables are arguments of the point.
\<close>

datatype 'c wpc =
    WNone
  | WStart
  | WLoop
  | WAcquire
  | WCascade nat
  | WFetch
  | WWork "'c list"
  | WExit

datatype 'c mpc =
    MCtorInit
  | MCtorAlloc
  | MCtorSpawn nat
  | MCtorWait
  | MIdle
  | MPublish "'c list"
  | MReset
  | MCascade nat
  | MFetch
  | MWork "'c list"
  | MWait
  | MClear
  | MDtorShutdown
  | MDtorClear
  | MDtorRelease nat
  | MDtorJoin nat
  | MDtorFree
  | MDead

text \<open>
  From here on every OS primitive succeeds (the failures are the subject of the
  section on \<^verbatim>\<open>Semaphore\<close> above), and the sampling hooks of \<^verbatim>\<open>prefixThreadWork\<close>
  and \<^verbatim>\<open>suffixThreadWork\<close>, which touch nothing of the pool, are left out.

  The fields of \<^verbatim>\<open>ThreadPool_pthread\<close> (the range \<^verbatim>\<open>workBegin .. workEnd\<close> is the list
  of the commands in it, empty when both are null; a semaphore is its count), the
  static counter of \<^verbatim>\<open>slaunch\<close>, the answers of \<^verbatim>\<open>LL::EnvCheck\<close>, the program
  points, and five observations that no statement of the source reads: the actions
  of each \<^verbatim>\<open>initThread\<close>, the number of \<^verbatim>\<open>sem_post\<close> calls on each gate, the
  number of barrier releases of each thread, the commands each thread has run, and
  the actions of the destructor.
\<close>

record 'c pool =
  maxThreads :: nat
  threads :: "nat \<Rightarrow> handle"
  starts :: "nat \<Rightarrow> nat"
  started :: ThinBarrier
  shutdown :: bool
  starting :: nat
  work :: "'c list"
  next_tid :: nat
  EnvCheck :: "string \<Rightarrow> bool"
  mpc :: "'c mpc"
  num :: nat
  wpc :: "nat \<Rightarrow> 'c wpc"
  inits :: "nat \<Rightarrow> action list"
  posts :: "nat \<Rightarrow> nat"
  signals :: "nat \<Rightarrow> nat"
  executed :: "nat \<Rightarrow> 'c list"
  dtor_trace :: "dtor_action list"

subsection \<open>Member functions\<close>

definition gate_release :: "nat \<Rightarrow> 'c pool \<Rightarrow> 'c pool" where
  \<comment> \<open>\<^verbatim>\<open>starts[g].release()\<close>: one \<^verbatim>\<open>sem_post\<close> that succeeds\<close>
  "gate_release g s =
     s\<lparr>starts := (starts s)(g := starts s g + 1), posts := (posts s)(g := posts s g + 1)\<rparr>"

definition gate_acquire :: "nat \<Rightarrow> 'c pool \<Rightarrow> 'c pool option" where
  \<comment> \<open>\<^verbatim>\<open>starts[g].acquire()\<close>: \<^verbatim>\<open>sem_wait\<close> blocks while the count is zero\<close>
  "gate_acquire g s =
     (if starts s g = 0 then None else Some (s\<lparr>starts := (starts s)(g := starts s g - 1)\<rparr>))"

definition initThread_actions :: "(string \<Rightarrow> bool) \<Rightarrow> nat \<Rightarrow> action list" where
  "initThread_actions env tid =
     [InitTID tid, InitPTS] @
     (if \<not> env ''GALOIS_DO_NOT_BIND_THREADS''
      then (if tid \<noteq> 0 \<or> \<not> env ''GALOIS_DO_NOT_BIND_MAIN_THREAD''
            then [BindThreadToProcessor tid] else [])
      else []) @
     [StartedRelease]"

definition initThread :: "nat \<Rightarrow> 'c pool \<Rightarrow> 'c pool" where
  "initThread tid s =
     s\<lparr>inits := (inits s)(tid := inits s tid @ initThread_actions (EnvCheck s) tid),
       started := ThinBarrier_release (started s),
       signals := (signals s)(tid := signals s tid + 1)\<rparr>"

definition multiple :: nat where
  "multiple = 2"

definition cascade_body :: "nat \<Rightarrow> nat \<Rightarrow> 'c pool \<Rightarrow> 'c pool" where
  \<comment> \<open>one iteration of the loop of \<^verbatim>\<open>cascade(tid)\<close>\<close>
  "cascade_body tid i s =
     (let n = u32 (tid * multiple + i)
      in if n < starting s then gate_release n s else s)"

definition cascade :: "nat \<Rightarrow> 'c pool \<Rightarrow> 'c pool" where
  "cascade tid s = cascade_body tid 2 (cascade_body tid 1 s)"

definition run_command :: "nat \<Rightarrow> 'c \<Rightarrow> 'c pool \<Rightarrow> 'c pool" where
  \<comment> \<open>\<^verbatim>\<open>(*workPtr)()\<close> on thread \<^verbatim>\<open>tid\<close>\<close>
  "run_command tid c s = s\<lparr>executed := (executed s)(tid := executed s tid @ [c])\<rparr>"

definition signal_done :: "nat \<Rightarrow> 'c pool \<Rightarrow> 'c pool" where
  \<comment> \<open>\<^verbatim>\<open>started.release()\<close> at the end of a round of \<^verbatim>\<open>launch\<close>\<close>
  "signal_done tid s =
     s\<lparr>started := ThinBarrier_release (started s),
       signals := (signals s)(tid := signals s tid + 1)\<rparr>"

subsection \<open>Steps of the threads\<close>

text \<open>A spawned thread takes its id: \<^verbatim>\<open>tid = __sync_add_and_fetch(&next, 1)\<close>.\<close>

definition boot_step :: "nat \<Rightarrow> 'c pool \<Rightarrow> 'c pool option" where
  "boot_step i s =
     (case threads s i of
        Created \<Rightarrow>
          (let tid = u32 (next_tid s + 1)
           in Some (s\<lparr>next_tid := tid, threads := (threads s)(i := Running tid),
                      wpc := (wpc s)(tid := WStart)\<rparr>))
      | _ \<Rightarrow> None)"

text \<open>
  \<^verbatim>\<open>initThread(tid); launch(tid)\<close> of a spawned thread. \<^verbatim>\<open>initThread\<close> is one step (its
  only shared access is the barrier), an iteration of the loop of \<^verbatim>\<open>cascade\<close> is one
  step, \<^verbatim>\<open>doWork\<close> reads \<^verbatim>\<open>workBegin\<close> and \<^verbatim>\<open>workEnd\<close> into its locals in one step
  and then runs one command per step.
\<close>

definition worker_step :: "nat \<Rightarrow> 'c pool \<Rightarrow> 'c pool option" where
  "worker_step tid s =
     (case wpc s tid of
        WNone \<Rightarrow> None
      | WStart \<Rightarrow> Some ((initThread tid s)\<lparr>wpc := (wpc s)(tid := WLoop)\<rparr>)
      | WLoop \<Rightarrow>
          Some (s\<lparr>wpc := (wpc s)(tid := (if shutdown s then WExit else WAcquire))\<rparr>)
      | WAcquire \<Rightarrow>
          (case gate_acquire tid s of
             None \<Rightarrow> None
           | Some s' \<Rightarrow> Some (s'\<lparr>wpc := (wpc s)(tid := WCascade 1)\<rparr>))
      | WCascade i \<Rightarrow>
          Some ((cascade_body tid i s)
                  \<lparr>wpc := (wpc s)(tid := (if i + 1 \<le> multiple then WCascade (i + 1) else WFetch))\<rparr>)
      | WFetch \<Rightarrow> Some (s\<lparr>wpc := (wpc s)(tid := WWork (work s))\<rparr>)
      | WWork cs \<Rightarrow>
          (case cs of
             c # cs' \<Rightarrow> Some ((run_command tid c s)\<lparr>wpc := (wpc s)(tid := WWork cs')\<rparr>)
           | [] \<Rightarrow> Some ((signal_done tid s)\<lparr>wpc := (wpc s)(tid := WLoop)\<rparr>))
      | WExit \<Rightarrow> None)"

text \<open>The constructor's body, \<^verbatim>\<open>runInternal\<close> and the destructor's body.\<close>

definition main_step :: "'c pool \<Rightarrow> 'c pool option" where
  "main_step s =
     (case mpc s of
        MCtorInit \<Rightarrow> Some ((initThread 0 s)\<lparr>mpc := MCtorAlloc\<rparr>)
      | MCtorAlloc \<Rightarrow>
          Some (s\<lparr>starts := (\<lambda>_. 0), threads := (\<lambda>_. NoThread), mpc := MCtorSpawn 1\<rparr>)
      | MCtorSpawn i \<Rightarrow>
          (if i < maxThreads s
           then Some (s\<lparr>threads := (threads s)(i := Created), mpc := MCtorSpawn (i + 1)\<rparr>)
           else Some (s\<lparr>mpc := MCtorWait\<rparr>))
      | MCtorWait \<Rightarrow>
          (if ThinBarrier_passable (started s) (int_of_unsigned (maxThreads s))
           then Some (s\<lparr>mpc := MIdle\<rparr>) else None)
      | MIdle \<Rightarrow> None
      | MPublish ws \<Rightarrow> Some (s\<lparr>starting := num s, work := ws, mpc := MReset\<rparr>)
      | MReset \<Rightarrow> Some (s\<lparr>started := ThinBarrier_reset (started s), mpc := MCascade 1\<rparr>)
      | MCascade i \<Rightarrow>
          Some ((cascade_body 0 i s)
                  \<lparr>mpc := (if i + 1 \<le> multiple then MCascade (i + 1) else MFetch)\<rparr>)
      | MFetch \<Rightarrow> Some (s\<lparr>mpc := MWork (work s)\<rparr>)
      | MWork cs \<Rightarrow>
          (case cs of
             c # cs' \<Rightarrow> Some ((run_command 0 c s)\<lparr>mpc := MWork cs'\<rparr>)
           | [] \<Rightarrow> Some (s\<lparr>mpc := MWait\<rparr>))
      | MWait \<Rightarrow>
          (if ThinBarrier_passable (started s) (int_of_unsigned (u32 (num s + 2 ^ 32 - 1)))
           then Some (s\<lparr>mpc := MClear\<rparr>) else None)
      | MClear \<Rightarrow> Some (s\<lparr>work := [], mpc := MIdle\<rparr>)
      | MDtorShutdown \<Rightarrow>
          Some (s\<lparr>shutdown := True, dtor_trace := dtor_trace s @ [SetShutdown],
                 mpc := MDtorClear\<rparr>)
      | MDtorClear \<Rightarrow>
          Some (s\<lparr>work := [], dtor_trace := dtor_trace s @ [ClearWork],
                 mpc := MDtorRelease 1\<rparr>)
      | MDtorRelease i \<Rightarrow>
          (if i < maxThreads s
           then Some ((gate_release i s)
                        \<lparr>dtor_trace := dtor_trace s @ [ReleaseGate i],
                         mpc := MDtorRelease (i + 1)\<rparr>)
           else Some (s\<lparr>mpc := MDtorJoin 1\<rparr>))
      | MDtorJoin i \<Rightarrow>
          (if i < maxThreads s
           then (case threads s i of
                   Running t \<Rightarrow>
                     (if wpc s t = WExit
                      then Some (s\<lparr>dtor_trace := dtor_trace s @ [JoinThread i],
                                   mpc := MDtorJoin (i + 1)\<rparr>)
                      else None)
                 | _ \<Rightarrow> None)
           else Some (s\<lparr>mpc := MDtorFree\<rparr>))
      | MDtorFree \<Rightarrow>
          Some (s\<lparr>dtor_trace := dtor_trace s @ [FreeArrays], mpc := MDead\<rparr>)
      | MDead \<Rightarrow> None)"

subsection \<open>Interleavings\<close>

datatype event = EvMain | EvBoot nat | EvWorker nat

fun step :: "event \<Rightarrow> 'c pool \<Rightarrow> 'c pool option" where
  "step EvMain s = main_step s"
| "step (EvBoot i) s = boot_step i s"
| "step (EvWorker tid) s = worker_step tid s"

text \<open>
  A schedule names the thread that moves next; a thread that is blocked (on a
  semaphore, spinning on the barrier, in \<^verbatim>\<open>pthread_join\<close>) or has ended does not move.
\<close>

fun exec :: "event list \<Rightarrow> 'c pool \<Rightarrow> 'c pool" where
  "exec [] s = s"
| "exec (e # es) s = exec es (case step e s of None \<Rightarrow> s | Some s' \<Rightarrow> s')"

subsection \<open>Entry points\<close>

text \<open>
  The member initialisers of the constructor over the storage of the object:
  \<^verbatim>\<open>ThreadPool(getMaxThreads()), started(0), shutdown(false), workBegin(0), workEnd(0)\<close>.
  \<^verbatim>\<open>starting\<close> has no initialiser. \<^verbatim>\<open>LL::getMaxThreads()\<close> and the environment are
  parameters.
\<close>

definition ThreadPool_pthread :: "'c pool \<Rightarrow> nat \<Rightarrow> (string \<Rightarrow> bool) \<Rightarrow> 'c pool" where
  "ThreadPool_pthread storage mt env =
     storage\<lparr>maxThreads := mt, started := ThinBarrier_ctor 0 (started storage),
             shutdown := False, work := [], EnvCheck := env, mpc := MCtorInit\<rparr>"

text \<open>
  The pool is the function-local static of \<^verbatim>\<open>getSystemThreadPool\<close>: its storage is
  zero-initialised before the constructor runs, no thread but the caller exists, and
  nothing has been observed.
\<close>

definition static_storage :: "'c pool" where
  "static_storage =
     \<lparr>maxThreads = 0, threads = (\<lambda>_. NoThread), starts = (\<lambda>_. 0), started = 0,
      shutdown = False, starting = 0, work = [], next_tid = 0, EnvCheck = (\<lambda>_. False),
      mpc = MDead, num = 0, wpc = (\<lambda>_. WNone), inits = (\<lambda>_. []), posts = (\<lambda>_. 0),
      signals = (\<lambda>_. 0), executed = (\<lambda>_. []), dtor_trace = []\<rparr>"

definition getSystemThreadPool :: "nat \<Rightarrow> (string \<Rightarrow> bool) \<Rightarrow> 'c pool" where
  "getSystemThreadPool mt env = ThreadPool_pthread static_storage mt env"

definition runInternal :: "nat \<Rightarrow> 'c list \<Rightarrow> 'c pool \<Rightarrow> 'c pool" where
  \<comment> \<open>\<^verbatim>\<open>num = std::min(std::max(num,1U), maxThreads)\<close>, then the body\<close>
  "runInternal n ws s = s\<lparr>num := min (max n 1) (maxThreads s), mpc := MPublish ws\<rparr>"

definition destroy :: "'c pool \<Rightarrow> 'c pool" where
  "destroy s = s\<lparr>mpc := MDtorShutdown\<rparr>"

definition observe :: "'c pool \<Rightarrow> 'c pool" where
  \<comment> \<open>start the observations of one invocation afresh\<close>
  "observe s = s\<lparr>posts := (\<lambda>_. 0), signals := (\<lambda>_. 0), executed := (\<lambda>_. [])\<rparr>"

subsection \<open>States between calls, and what a schedule does\<close>

text \<open>
  Between two calls the pool is quiescent: the owner is outside every member function,
  every spawned thread \<^verbatim>\<open>1 .. maxThreads - 1\<close> is parked in \<^verbatim>\<open>launch\<close> (at the loop test
  or in \<^verbatim>\<open>starts[tid].acquire()\<close>) with its gate at zero, each handle \<^verbatim>\<open>threads[i]\<close>
  belongs to one of these threads and each thread to a handle, and the work range is
  empty. The thread count is positive and fits \<^verbatim>\<open>int\<close>.
\<close>

definition quiescent :: "'c pool \<Rightarrow> bool" where
  "quiescent s \<longleftrightarrow>
     mpc s = MIdle \<and> \<not> shutdown s \<and> work s = [] \<and>
     0 < maxThreads s \<and> maxThreads s < 2 ^ 31 \<and> starting s \<le> maxThreads s \<and>
     (\<forall>t. if 0 < t \<and> t < maxThreads s
          then (wpc s t = WLoop \<or> wpc s t = WAcquire) \<and> starts s t = 0
               \<and> (\<exists>i. 0 < i \<and> i < maxThreads s \<and> threads s i = Running t)
          else wpc s t = WNone) \<and>
     (\<forall>i. if 0 < i \<and> i < maxThreads s
          then (\<exists>t. 0 < t \<and> t < maxThreads s \<and> threads s i = Running t)
          else threads s i = NoThread)"

text \<open>The number of steps a schedule really takes (blocked threads take none).\<close>

fun taken :: "event list \<Rightarrow> 'c pool \<Rightarrow> nat" where
  "taken [] s = 0"
| "taken (e # es) s = (case step e s of None \<Rightarrow> taken es s | Some s' \<Rightarrow> Suc (taken es s'))"

text \<open>
  The threads a round has activated: thread 0, which starts the cascade, and every
  thread whose gate has been released.
\<close>

definition activated :: "'c pool \<Rightarrow> nat set" where
  "activated s = insert 0 {t. 0 < posts s t}"

section \<open>Invariants, measures and example pools\<close>

subsection \<open>The tree of threads and the invariant of a round\<close>

text \<open>
  Thread \<open>t > 0\<close> is child number \<open>slot t\<close> (1 or 2) of thread \<open>parent t\<close>.
  \<open>casc_done s t\<close> is the number of iterations of \<^verbatim>\<open>cascade(t)\<close> thread \<open>t\<close> has
  completed in the current round, read off its program point; a thread is in a round
  between its \<^verbatim>\<open>acquire\<close> and its \<^verbatim>\<open>started.release()\<close>. \<open>run_inv k ws\<close> holds
  throughout a round with activation count \<open>k\<close> and commands \<open>ws\<close>: the gate of
  \<open>t\<close> has been posted (once) exactly when \<open>t < k\<close> and its parent has passed
  iteration \<open>slot t\<close>; the count of a gate is its posts less the acquire of its thread;
  the barrier counts the threads that have signalled.
\<close>

definition parent :: "nat \<Rightarrow> nat" where
  "parent t = (t - 1) div 2"

definition slot :: "nat \<Rightarrow> nat" where
  "slot t = t - 2 * parent t"

fun mcasc :: "'c mpc \<Rightarrow> nat" where
  "mcasc (MPublish ws) = 0"
| "mcasc MReset = 0"
| "mcasc (MCascade i) = i - 1"
| "mcasc _ = 2"

fun wcasc :: "'c wpc \<Rightarrow> nat \<Rightarrow> nat" where
  "wcasc (WCascade i) sg = i - 1"
| "wcasc WFetch sg = 2"
| "wcasc (WWork cs) sg = 2"
| "wcasc _ sg = (if sg = 0 then 0 else 2)"

definition casc_done :: "'c pool \<Rightarrow> nat \<Rightarrow> nat" where
  "casc_done s t = (if t = 0 then mcasc (mpc s) else wcasc (wpc s t) (signals s t))"

fun in_round :: "'c wpc \<Rightarrow> bool" where
  "in_round (WCascade i) = True"
| "in_round WFetch = True"
| "in_round (WWork cs) = True"
| "in_round _ = False"

definition acquired :: "'c pool \<Rightarrow> nat \<Rightarrow> bool" where
  "acquired s t \<longleftrightarrow> in_round (wpc s t) \<or> signals s t \<noteq> 0"

definition released :: "nat \<Rightarrow> 'c pool \<Rightarrow> nat \<Rightarrow> bool" where
  "released k s t \<longleftrightarrow> 0 < t \<and> t < k \<and> slot t \<le> casc_done s (parent t)"

definition parked_ok :: "'c list \<Rightarrow> nat \<Rightarrow> 'c list \<Rightarrow> bool" where
  "parked_ok ws sg ex \<longleftrightarrow> (sg = 0 \<and> ex = []) \<or> (sg = 1 \<and> ex = ws)"

fun wpc_ok :: "'c list \<Rightarrow> 'c wpc \<Rightarrow> nat \<Rightarrow> 'c list \<Rightarrow> bool" where
  "wpc_ok ws WLoop sg ex = parked_ok ws sg ex"
| "wpc_ok ws WAcquire sg ex = parked_ok ws sg ex"
| "wpc_ok ws (WCascade i) sg ex = ((i = 1 \<or> i = 2) \<and> sg = 0 \<and> ex = [])"
| "wpc_ok ws WFetch sg ex = (sg = 0 \<and> ex = [])"
| "wpc_ok ws (WWork cs) sg ex = (sg = 0 \<and> ex @ cs = ws)"
| "wpc_ok ws _ sg ex = False"

definition gate_ok :: "'c pool \<Rightarrow> nat \<Rightarrow> bool" where
  "gate_ok s t \<longleftrightarrow> starts s t + (if acquired s t then 1 else 0) = posts s t"

definition local_ok :: "'c list \<Rightarrow> 'c pool \<Rightarrow> nat \<Rightarrow> bool" where
  "local_ok ws s t \<longleftrightarrow> wpc_ok ws (wpc s t) (signals s t) (executed s t)"

definition worker_inv :: "nat \<Rightarrow> 'c list \<Rightarrow> 'c pool \<Rightarrow> nat \<Rightarrow> bool" where
  "worker_inv k ws s t \<longleftrightarrow>
     posts s t = (if released k s t then 1 else 0) \<and> gate_ok s t \<and> local_ok ws s t"

definition done_count :: "nat \<Rightarrow> 'c pool \<Rightarrow> nat" where
  "done_count k s = card {t. 0 < t \<and> t < k \<and> signals s t \<noteq> 0}"

definition published :: "nat \<Rightarrow> 'c list \<Rightarrow> 'c pool \<Rightarrow> bool" where
  "published k ws s \<longleftrightarrow> starting s = k \<and> work s = ws \<and> started s = int (done_count k s)"

definition nobody_started :: "'c pool \<Rightarrow> bool" where
  "nobody_started s \<longleftrightarrow> (\<forall>t. signals s t = 0 \<and> \<not> in_round (wpc s t))"

definition all_done :: "nat \<Rightarrow> 'c pool \<Rightarrow> bool" where
  "all_done k s \<longleftrightarrow> (\<forall>t. 0 < t \<and> t < k \<longrightarrow> signals s t = 1)"

fun mpc_ok :: "nat \<Rightarrow> 'c list \<Rightarrow> 'c pool \<Rightarrow> 'c mpc \<Rightarrow> bool" where
  "mpc_ok k ws s (MPublish ws') = (ws' = ws \<and> executed s 0 = [] \<and> nobody_started s)"
| "mpc_ok k ws s MReset = (starting s = k \<and> work s = ws \<and> executed s 0 = [] \<and> nobody_started s)"
| "mpc_ok k ws s (MCascade i) = ((i = 1 \<or> i = 2) \<and> published k ws s \<and> executed s 0 = [])"
| "mpc_ok k ws s MFetch = (published k ws s \<and> executed s 0 = [])"
| "mpc_ok k ws s (MWork cs) = (published k ws s \<and> executed s 0 @ cs = ws)"
| "mpc_ok k ws s MWait = (published k ws s \<and> executed s 0 = ws)"
| "mpc_ok k ws s MClear = (published k ws s \<and> executed s 0 = ws \<and> all_done k s)"
| "mpc_ok k ws s MIdle = (starting s = k \<and> work s = [] \<and> started s = int (done_count k s) \<and>
     executed s 0 = ws \<and> all_done k s)"
| "mpc_ok k ws s _ = False"

definition run_inv :: "nat \<Rightarrow> 'c list \<Rightarrow> 'c pool \<Rightarrow> bool" where
  "run_inv k ws s \<longleftrightarrow>
     \<not> shutdown s \<and> num s = k \<and> 0 < k \<and> k \<le> maxThreads s \<and> maxThreads s < 2 ^ 31 \<and>
     signals s 0 = 0 \<and> (\<forall>i. threads s i \<noteq> Created) \<and>
     mpc_ok k ws s (mpc s) \<and>
     (\<forall>t. 0 < t \<and> t < maxThreads s \<longrightarrow> worker_inv k ws s t) \<and>
     (\<forall>t. \<not> (0 < t \<and> t < maxThreads s) \<longrightarrow>
        wpc s t = WNone \<and> posts s t = 0 \<and> (0 < t \<longrightarrow> signals s t = 0 \<and> executed s t = []))"

fun before_cascade :: "'c mpc \<Rightarrow> bool" where
  "before_cascade (MPublish ws) = True"
| "before_cascade MReset = True"
| "before_cascade _ = False"

fun running :: "'c mpc \<Rightarrow> bool" where
  "running (MCascade i) = True"
| "running MFetch = True"
| "running (MWork cs) = True"
| "running MWait = True"
| "running _ = False"

definition same_pool :: "'c pool \<Rightarrow> 'c pool \<Rightarrow> bool" where
  "same_pool s0 s \<longleftrightarrow>
     maxThreads s = maxThreads s0 \<and> threads s = threads s0 \<and> next_tid s = next_tid s0 \<and>
     EnvCheck s = EnvCheck s0 \<and> inits s = inits s0 \<and> dtor_trace s = dtor_trace s0"

subsection \<open>Steps left in a round\<close>

text \<open>
  The number of steps a thread can still take in the round, as a function of its
  program point (and, for a parked thread, of whether it has still to run). Every step
  lowers the sum.
\<close>

fun wrem :: "nat \<Rightarrow> 'c wpc \<Rightarrow> bool \<Rightarrow> nat" where
  "wrem n WLoop todo = (if todo then n + 7 else 1)"
| "wrem n WAcquire todo = (if todo then n + 6 else 0)"
| "wrem n (WCascade i) todo = n + 6 - i"
| "wrem n WFetch todo = n + 3"
| "wrem n (WWork cs) todo = length cs + 2"
| "wrem n _ todo = 0"

fun mrem :: "nat \<Rightarrow> 'c mpc \<Rightarrow> nat" where
  "mrem n (MPublish ws) = n + 8"
| "mrem n MReset = n + 7"
| "mrem n (MCascade i) = n + 7 - i"
| "mrem n MFetch = n + 4"
| "mrem n (MWork cs) = length cs + 3"
| "mrem n MWait = 2"
| "mrem n MClear = 1"
| "mrem n _ = 0"

definition run_measure :: "nat \<Rightarrow> nat \<Rightarrow> 'c pool \<Rightarrow> nat" where
  "run_measure k n s =
     mrem n (mpc s) + (\<Sum>t = 1..<maxThreads s. wrem n (wpc s t) (t < k \<and> signals s t = 0))"

subsection \<open>The invariant of the constructor\<close>

text \<open>
  The handles \<open>1 .. spawn_index - 1\<close> have been created; those whose thread has taken
  its id are in one-to-one correspondence with the ids \<open>1 .. next\<close>; a thread that has
  an id has either not yet run \<^verbatim>\<open>initThread\<close> or run it once; the barrier counts the
  threads that have.
\<close>

fun spawn_index :: "nat \<Rightarrow> 'c mpc \<Rightarrow> nat" where
  "spawn_index mt MCtorInit = 1"
| "spawn_index mt MCtorAlloc = 1"
| "spawn_index mt (MCtorSpawn i) = i"
| "spawn_index mt _ = mt"

definition handles_ok :: "nat \<Rightarrow> 'c pool \<Rightarrow> bool" where
  "handles_ok ci s \<longleftrightarrow>
     (\<forall>j. threads s j \<noteq> NoThread \<longleftrightarrow> 0 < j \<and> j < ci) \<and>
     (\<forall>j t. threads s j = Running t \<longrightarrow> 0 < t \<and> t \<le> next_tid s) \<and>
     (\<forall>t. 0 < t \<and> t \<le> next_tid s \<longrightarrow> (\<exists>j. threads s j = Running t)) \<and>
     (\<forall>j j' t. threads s j = Running t \<and> threads s j' = Running t \<longrightarrow> j = j')"

definition worker_ready :: "(string \<Rightarrow> bool) \<Rightarrow> 'c pool \<Rightarrow> nat \<Rightarrow> bool" where
  "worker_ready env s t \<longleftrightarrow>
     (if 0 < t \<and> t \<le> next_tid s
      then (wpc s t = WStart \<and> signals s t = 0 \<and> inits s t = []) \<or>
           ((wpc s t = WLoop \<or> wpc s t = WAcquire) \<and> signals s t = 1 \<and>
            inits s t = initThread_actions env t)
      else wpc s t = WNone \<and> (0 < t \<longrightarrow> signals s t = 0 \<and> inits s t = []))"

definition ready_count :: "'c pool \<Rightarrow> nat" where
  "ready_count s = card {t. 0 < t \<and> t \<le> next_tid s \<and> wpc s t \<noteq> WStart}"

fun cpc_ok :: "nat \<Rightarrow> 'c pool \<Rightarrow> 'c mpc \<Rightarrow> bool" where
  "cpc_ok mt s MCtorInit = (signals s 0 = 0 \<and> inits s 0 = [] \<and> next_tid s = 0)"
| "cpc_ok mt s MCtorAlloc = (next_tid s = 0)"
| "cpc_ok mt s (MCtorSpawn i) = (0 < i \<and> i \<le> mt)"
| "cpc_ok mt s MCtorWait = True"
| "cpc_ok mt s MIdle = (next_tid s = mt - 1 \<and> ready_count s = mt - 1)"
| "cpc_ok mt s _ = False"

definition ctor_inv :: "nat \<Rightarrow> (string \<Rightarrow> bool) \<Rightarrow> 'c pool \<Rightarrow> bool" where
  "ctor_inv mt env s \<longleftrightarrow>
     maxThreads s = mt \<and> 0 < mt \<and> mt < 2 ^ 31 \<and> \<not> shutdown s \<and> work s = [] \<and>
     EnvCheck s = env \<and> starting s = 0 \<and> (\<forall>t. starts s t = 0) \<and>
     cpc_ok mt s (mpc s) \<and> handles_ok (spawn_index mt (mpc s)) s \<and>
     (\<forall>t. worker_ready env s t) \<and>
     (mpc s \<noteq> MCtorInit \<longrightarrow> signals s 0 = 1 \<and> inits s 0 = initThread_actions env 0) \<and>
     started s = int (signals s 0) + int (ready_count s)"

definition running_handles :: "'c pool \<Rightarrow> nat set" where
  "running_handles s = {j. \<exists>t. threads s j = Running t}"

subsection \<open>Steps left in the constructor\<close>

fun cmrem :: "nat \<Rightarrow> 'c mpc \<Rightarrow> nat" where
  "cmrem mt MCtorInit = mt + 4"
| "cmrem mt MCtorAlloc = mt + 3"
| "cmrem mt (MCtorSpawn i) = mt - i + 2"
| "cmrem mt MCtorWait = 1"
| "cmrem mt _ = 0"

fun hrem :: "handle \<Rightarrow> nat" where
  "hrem (Running t) = 0"
| "hrem _ = 3"

fun cwrem :: "'c wpc \<Rightarrow> nat" where
  "cwrem WStart = 2"
| "cwrem WLoop = 1"
| "cwrem _ = 0"

definition ctor_measure :: "nat \<Rightarrow> 'c pool \<Rightarrow> nat" where
  "ctor_measure mt s =
     cmrem mt (mpc s) + (\<Sum>j = 1..<mt. hrem (threads s j)) + (\<Sum>t = 1..<mt. cwrem (wpc s t))"

subsection \<open>The invariant of the destructor\<close>

text \<open>
  Once the destructor has posted the gate of a thread that waits in \<^verbatim>\<open>acquire\<close>, the
  gate stays positive until the thread takes it; a thread is past its \<^verbatim>\<open>acquire\<close> only
  after \<^verbatim>\<open>shutdown\<close> was set, finds the work range empty and then leaves the loop.
  A round of \<^verbatim>\<open>launch\<close> that runs during destruction still calls \<^verbatim>\<open>cascade\<close> with
  the \<^verbatim>\<open>starting\<close> of the last invocation, which can only add to gates.
\<close>

fun gate_released :: "'c mpc \<Rightarrow> nat \<Rightarrow> bool" where
  "gate_released (MDtorRelease i) t = (t < i)"
| "gate_released (MDtorJoin i) t = True"
| "gate_released MDtorFree t = True"
| "gate_released MDead t = True"
| "gate_released _ t = False"

fun before_release :: "'c mpc \<Rightarrow> bool" where
  "before_release MDtorShutdown = True"
| "before_release MDtorClear = True"
| "before_release _ = False"

fun dwpc_ok :: "'c pool \<Rightarrow> nat \<Rightarrow> 'c wpc \<Rightarrow> bool" where
  "dwpc_ok s t WLoop = True"
| "dwpc_ok s t WAcquire = (gate_released (mpc s) t \<longrightarrow> 0 < starts s t)"
| "dwpc_ok s t (WCascade i) = ((i = 1 \<or> i = 2) \<and> shutdown s)"
| "dwpc_ok s t WFetch = shutdown s"
| "dwpc_ok s t (WWork cs) = (cs = [] \<and> shutdown s)"
| "dwpc_ok s t WExit = shutdown s"
| "dwpc_ok s t _ = False"

definition all_joined :: "nat \<Rightarrow> 'c pool \<Rightarrow> bool" where
  "all_joined i s \<longleftrightarrow> (\<forall>j t. 0 < j \<and> j < i \<and> threads s j = Running t \<longrightarrow> wpc s t = WExit)"

fun dpc_ok :: "nat \<Rightarrow> dtor_action list \<Rightarrow> 'c pool \<Rightarrow> 'c mpc \<Rightarrow> bool" where
  "dpc_ok mt tr s MDtorShutdown = (\<not> shutdown s \<and> dtor_trace s = tr)"
| "dpc_ok mt tr s MDtorClear = (shutdown s \<and> dtor_trace s = tr @ [SetShutdown])"
| "dpc_ok mt tr s (MDtorRelease i) =
     (shutdown s \<and> 0 < i \<and> i \<le> mt \<and>
      dtor_trace s = tr @ [SetShutdown, ClearWork] @ map ReleaseGate [1..<i])"
| "dpc_ok mt tr s (MDtorJoin i) =
     (shutdown s \<and> 0 < i \<and> i \<le> mt \<and> all_joined i s \<and>
      dtor_trace s = tr @ [SetShutdown, ClearWork] @ map ReleaseGate [1..<mt] @
        map JoinThread [1..<i])"
| "dpc_ok mt tr s MDtorFree =
     (shutdown s \<and> all_joined mt s \<and>
      dtor_trace s = tr @ [SetShutdown, ClearWork] @ map ReleaseGate [1..<mt] @
        map JoinThread [1..<mt])"
| "dpc_ok mt tr s MDead =
     (shutdown s \<and> all_joined mt s \<and>
      dtor_trace s = tr @ [SetShutdown, ClearWork] @ map ReleaseGate [1..<mt] @
        map JoinThread [1..<mt] @ [FreeArrays])"
| "dpc_ok mt tr s _ = False"

definition dtor_inv :: "'c pool \<Rightarrow> 'c pool \<Rightarrow> bool" where
  "dtor_inv q s \<longleftrightarrow>
     quiescent q \<and> maxThreads s = maxThreads q \<and> threads s = threads q \<and> work s = [] \<and>
     dpc_ok (maxThreads q) (dtor_trace q) s (mpc s) \<and>
     (\<forall>t. if 0 < t \<and> t < maxThreads q then dwpc_ok s t (wpc s t) else wpc s t = WNone) \<and>
     (before_release (mpc s) \<longrightarrow>
        (\<forall>t. 0 < t \<and> t < maxThreads q \<longrightarrow> starts s t = 0 \<and> \<not> in_round (wpc s t)))"

subsection \<open>Steps left in the destructor\<close>

fun dmrem :: "nat \<Rightarrow> 'c mpc \<Rightarrow> nat" where
  "dmrem mt MDtorShutdown = 2 * mt + 5"
| "dmrem mt MDtorClear = 2 * mt + 4"
| "dmrem mt (MDtorRelease i) = mt - i + mt + 3"
| "dmrem mt (MDtorJoin i) = mt - i + 2"
| "dmrem mt MDtorFree = 1"
| "dmrem mt _ = 0"

fun dwrem :: "'c wpc \<Rightarrow> bool \<Rightarrow> nat" where
  "dwrem WLoop sd = (if sd then 1 else 8)"
| "dwrem WAcquire sd = 7"
| "dwrem (WCascade i) sd = 7 - i"
| "dwrem WFetch sd = 4"
| "dwrem (WWork cs) sd = 3"
| "dwrem _ sd = 0"

definition dtor_measure :: "'c pool \<Rightarrow> nat" where
  "dtor_measure s =
     dmrem (maxThreads s) (mpc s) + (\<Sum>t = 1..<maxThreads s. dwrem (wpc s t) (shutdown s))"

subsection \<open>Example pools and schedules\<close>

text \<open>
  A pool of two threads and a pool of five threads as their constructors leave them
  (in the second the threads take their ids in another order than their handles were
  created), a round on each, a schedule that leaves the initiator waiting at the
  barrier, and a destruction of the second pool after its round. Three schedules of
  a constructor: one that brings the constructing thread of a pool of three to its wait
  before any spawned thread has moved, one of a pool of two in which the spawned thread
  runs \<^verbatim>\<open>initThread\<close> before the constructing thread has left its loop, and one of a
  pool of two that stops when the constructing thread can leave its wait.
\<close>

definition pool2 :: "nat pool" where
  "pool2 = exec [EvMain, EvMain, EvMain, EvMain, EvBoot 1, EvWorker 1, EvMain]
     (getSystemThreadPool 2 (\<lambda>_. False))"

definition round2 :: "event list" where
  "round2 = [EvMain, EvMain, EvMain, EvMain, EvWorker 1, EvWorker 1, EvWorker 1, EvWorker 1,
     EvWorker 1, EvWorker 1, EvWorker 1, EvWorker 1, EvMain, EvMain, EvMain, EvMain, EvMain, EvMain]"

definition pool5 :: "nat pool" where
  "pool5 = exec [EvMain, EvMain, EvMain, EvMain, EvMain, EvMain, EvMain,
       EvBoot 2, EvBoot 4, EvWorker 1, EvBoot 1, EvBoot 3,
       EvWorker 2, EvWorker 4, EvWorker 3, EvMain]
     (getSystemThreadPool 5 (\<lambda>_. False))"

definition round5 :: "event list" where
  "round5 = [EvMain, EvMain, EvMain, EvWorker 1, EvWorker 1, EvWorker 1, EvMain,
     EvWorker 3, EvWorker 3, EvWorker 2, EvWorker 2, EvWorker 2, EvWorker 2, EvMain, EvMain,
     EvWorker 3, EvWorker 3, EvWorker 3, EvWorker 3, EvWorker 3, EvWorker 1, EvWorker 1,
     EvWorker 1, EvWorker 1, EvMain, EvMain, EvWorker 2, EvWorker 2, EvWorker 2, EvWorker 4,
     EvMain, EvMain]"

definition ctor5 :: "event list" where
  "ctor5 = [EvMain, EvMain, EvMain, EvMain, EvMain, EvMain, EvMain,
       EvBoot 2, EvBoot 4, EvWorker 1, EvBoot 1, EvBoot 3,
       EvWorker 2, EvWorker 4, EvWorker 3, EvMain]"

definition after5 :: "nat pool" where
  "after5 = exec round5 (runInternal 4 [7] (observe pool5))"

definition stop5 :: "event list" where
  "stop5 = [EvWorker 1, EvMain, EvMain, EvMain,
     EvWorker 1, EvWorker 1, EvWorker 1, EvWorker 1, EvWorker 1, EvWorker 1,
     EvMain, EvMain, EvMain, EvMain, EvWorker 3, EvMain, EvMain,
     EvWorker 4, EvWorker 4, EvWorker 4, EvWorker 4, EvWorker 4, EvWorker 4,
     EvMain, EvWorker 2, EvMain, EvMain, EvMain]"

definition wait2 :: "event list" where
  "wait2 = [EvMain, EvMain, EvMain, EvMain, EvMain, EvMain, EvMain, EvMain, EvWorker 1]"

definition ctor_wait3 :: "event list" where
  "ctor_wait3 = [EvMain, EvMain, EvMain, EvMain, EvMain]"

definition ctor_early2 :: "event list" where
  "ctor_early2 = [EvMain, EvMain, EvMain, EvBoot 1, EvWorker 1, EvMain]"

definition ctor_ready2 :: "event list" where
  "ctor_ready2 = [EvMain, EvMain, EvMain, EvMain, EvBoot 1, EvWorker 1]"

section \<open>Failures of the OS primitives\<close>

lemma Semaphore_release_fatal:
  "j < n \<Longrightarrow> rc \<noteq> 0 \<Longrightarrow>
   Semaphore_release n (replicate j 0 @ rc # rcs) = Dies (GALOIS_DIE (die_line sem_post) ''PTHREAD'')"
proof (induction n arbitrary: j)
  case 0
  then show ?case by simp
next
  case (Suc n)
  then show ?case by (cases j) auto
qed

lemma Semaphore_acquire_fatal:
  "\<forall>a \<in> set pre. interrupted a \<or> fst a = 0 \<Longrightarrow>
   length (filter (\<lambda>a. \<not> interrupted a) pre) < n \<Longrightarrow>
   \<not> interrupted (rc, e) \<Longrightarrow> rc \<noteq> 0 \<Longrightarrow>
   Semaphore_acquire n (pre @ (rc, e) # rest) = Dies (GALOIS_DIE (die_line sem_wait) ''PTHREAD'')"
proof (induction pre arbitrary: n)
  case Nil
  then show ?case by (cases n) (auto simp: interrupted_def)
next
  case (Cons a pre)
  obtain m where n: "n = Suc m"
    using Cons.prems(2) by (cases n) auto
  show ?case
  proof (cases "interrupted a")
    case True
    then have "Semaphore_acquire n ((a # pre) @ (rc, e) # rest) =
        Semaphore_acquire n (pre @ (rc, e) # rest)"
      by (cases a) (simp add: n interrupted_def)
    moreover have "Semaphore_acquire n (pre @ (rc, e) # rest) =
        Dies (GALOIS_DIE (die_line sem_wait) ''PTHREAD'')"
      using Cons.prems True by (intro Cons.IH) auto
    ultimately show ?thesis by simp
  next
    case False
    then have a0: "fst a = 0"
      using Cons.prems(1) by auto
    have "Semaphore_acquire n ((a # pre) @ (rc, e) # rest) =
        Semaphore_acquire m (pre @ (rc, e) # rest)"
      using False a0 by (cases a) (simp add: n interrupted_def)
    moreover have "Semaphore_acquire m (pre @ (rc, e) # rest) =
        Dies (GALOIS_DIE (die_line sem_wait) ''PTHREAD'')"
      using Cons.prems False n by (intro Cons.IH) auto
    ultimately show ?thesis by simp
  qed
qed

lemma create_threads_fatal:
  "i + j < mt \<Longrightarrow> rc \<noteq> 0 \<Longrightarrow>
   create_threads i mt (replicate j 0 @ rc # rcs) =
     Dies (GALOIS_DIE (die_line pthread_create) ''PTHREAD'')"
  by (induction j arbitrary: i) auto

lemma join_threads_fatal:
  "i + j < mt \<Longrightarrow> rc \<noteq> 0 \<Longrightarrow>
   join_threads i mt (replicate j 0 @ rc # rcs) =
     Dies (GALOIS_DIE (die_line pthread_join) ''PTHREAD'')"
  by (induction j arbitrary: i) auto

text \<open>
  C8. A failing \<^verbatim>\<open>sem_init\<close>, \<^verbatim>\<open>sem_destroy\<close>, \<^verbatim>\<open>sem_post\<close>, \<^verbatim>\<open>pthread_create\<close> or
  \<^verbatim>\<open>pthread_join\<close> (a nonzero return code, after any number of calls that succeeded),
  and a \<^verbatim>\<open>sem_wait\<close> that fails otherwise than interrupted by \<^verbatim>\<open>EINTR\<close>, end the
  process at once: the outcome is \<^verbatim>\<open>GALOIS_DIE\<close> at the line of that primitive, whatever
  answers would follow, and the diagnostics of two primitives differ. A \<^verbatim>\<open>sem_wait\<close>
  interrupted by \<^verbatim>\<open>EINTR\<close> is called again and counts for nothing.
\<close>

theorem os_failure_is_fatal:
  "(rc \<noteq> 0 \<longrightarrow>
      Semaphore_ctor val rc = Dies (GALOIS_DIE (die_line sem_init) ''PTHREAD'') \<and>
      Semaphore_dtor rc = Dies (GALOIS_DIE (die_line sem_destroy) ''PTHREAD''))
   \<and> (rc \<noteq> 0 \<and> j < n \<longrightarrow>
      Semaphore_release n (replicate j 0 @ rc # rcs) =
        Dies (GALOIS_DIE (die_line sem_post) ''PTHREAD''))
   \<and> (rc \<noteq> 0 \<and> \<not> interrupted (rc, e) \<and> (\<forall>a \<in> set pre. interrupted a \<or> fst a = 0) \<and>
       length (filter (\<lambda>a. \<not> interrupted a) pre) < n \<longrightarrow>
      Semaphore_acquire n (pre @ (rc, e) # rest) =
        Dies (GALOIS_DIE (die_line sem_wait) ''PTHREAD''))
   \<and> (interrupted (rc, e) \<longrightarrow>
      Semaphore_acquire (Suc n) ((rc, e) # rest) = Semaphore_acquire (Suc n) rest)
   \<and> (rc \<noteq> 0 \<and> i + j < mt \<longrightarrow>
      create_threads i mt (replicate j 0 @ rc # rcs) =
        Dies (GALOIS_DIE (die_line pthread_create) ''PTHREAD'') \<and>
      join_threads i mt (replicate j 0 @ rc # rcs) =
        Dies (GALOIS_DIE (die_line pthread_join) ''PTHREAD''))
   \<and> (\<forall>p q. GALOIS_DIE (die_line p) ''PTHREAD'' = GALOIS_DIE (die_line q) ''PTHREAD'' \<longrightarrow> p = q)"
proof -
  have "die_line p = die_line q \<Longrightarrow> p = q" for p q
    by (cases p; cases q) simp_all
  then have "\<forall>p q. GALOIS_DIE (die_line p) ''PTHREAD'' = GALOIS_DIE (die_line q) ''PTHREAD'' \<longrightarrow> p = q"
    by (simp add: GALOIS_DIE_def)
  moreover have "interrupted (rc, e) \<longrightarrow>
      Semaphore_acquire (Suc n) ((rc, e) # rest) = Semaphore_acquire (Suc n) rest"
    by (simp add: interrupted_def)
  ultimately show ?thesis
    using Semaphore_release_fatal [of j n rc rcs] Semaphore_acquire_fatal [of pre n rc e rest]
      create_threads_fatal [of i j mt rc rcs] join_threads_fatal [of i j mt rc rcs]
    by (simp add: Semaphore_ctor_def Semaphore_dtor_def)
qed

theorem os_failure_is_fatal_witness:
  "Semaphore_ctor 0 (- 1) = Dies (Fatal 58 ''PTHREAD'')
   \<and> Semaphore_dtor (- 1) = Dies (Fatal 63 ''PTHREAD'')
   \<and> Semaphore_release 2 [0, - 1, 0] = Dies (Fatal 70 ''PTHREAD'')
   \<and> Semaphore_acquire 2 [(- 1, EINTR), (0, 0), (- 1, EINTR), (- 1, 11), (0, 0)] =
       Dies (Fatal 80 ''PTHREAD'')
   \<and> Semaphore_acquire 1 [(- 1, EINTR), (0, 0)] = Semaphore_acquire 1 [(0, 0)]
   \<and> Semaphore_acquire 1 [(0, 0)] = Returns []
   \<and> create_threads 1 4 [0, 7, 0] = Dies (Fatal 180 ''PTHREAD'')
   \<and> join_threads 1 4 [0, 7, 0] = Dies (Fatal 193 ''PTHREAD'')"
  using os_failure_is_fatal [of "- 1" 0 1 2 "[0]" 11 "[(- 1, EINTR), (0, 0), (- 1, EINTR)]" "[(0, 0)]"]
    os_failure_is_fatal [of "- 1" 0 0 0 "[]" EINTR "[]" "[(0, 0)]"]
    os_failure_is_fatal [of 7 0 1 1 "[0]" 0 "[]" "[]" 1 4]
  by (simp add: interrupted_def EINTR_def GALOIS_DIE_def)

section \<open>Clamping of the requested count\<close>

text \<open>
  C6. \<^verbatim>\<open>runInternal\<close> first replaces the requested count by
  \<^verbatim>\<open>min (max num 1) maxThreads\<close>, a local computation: a call with 0 enters the body in
  the state a call with 1 enters it, a call with \<^verbatim>\<open>maxThreads + n\<close> in the state a call
  with \<^verbatim>\<open>maxThreads\<close> does, and the count the first step stores in \<^verbatim>\<open>starting\<close> lies
  between 1 and \<^verbatim>\<open>maxThreads\<close> (a pool has at least its thread 0).
\<close>

theorem runInternal_clamps:
  "0 < maxThreads s \<Longrightarrow>
   runInternal 0 ws s = runInternal 1 ws s \<and>
   runInternal (maxThreads s + n) ws s = runInternal (maxThreads s) ws s \<and>
   num (runInternal r ws s) = min (max r 1) (maxThreads s) \<and>
   1 \<le> num (runInternal r ws s) \<and> num (runInternal r ws s) \<le> maxThreads s \<and>
   (\<exists>s'. step EvMain (runInternal r ws s) = Some s' \<and>
      starting s' = num (runInternal r ws s) \<and> 1 \<le> starting s' \<and> starting s' \<le> maxThreads s')"
  by (auto simp: runInternal_def main_step_def)

theorem runInternal_clamps_witness:
  "0 < maxThreads (getSystemThreadPool 8 (\<lambda>_. False) :: nat pool)
   \<and> runInternal 0 [5] (getSystemThreadPool 8 (\<lambda>_. False) :: nat pool) =
       runInternal 1 [5] (getSystemThreadPool 8 (\<lambda>_. False))
   \<and> runInternal (8 + 100) [5] (getSystemThreadPool 8 (\<lambda>_. False) :: nat pool) =
       runInternal 8 [5] (getSystemThreadPool 8 (\<lambda>_. False))
   \<and> num (runInternal 3 [5] (getSystemThreadPool 8 (\<lambda>_. False) :: nat pool)) = 3"
  using runInternal_clamps [of "getSystemThreadPool 8 (\<lambda>_. False) :: nat pool" "[5]" 100 3]
  by (simp add: getSystemThreadPool_def ThreadPool_pthread_def)

section \<open>Binding of a thread to its processor\<close>

text \<open>
  C9. \<^verbatim>\<open>initThread(tid)\<close> performs \<^verbatim>\<open>bindThreadToProcessor(p)\<close> exactly when \<^verbatim>\<open>p\<close> is
  \<^verbatim>\<open>tid\<close>, \<^verbatim>\<open>GALOIS_DO_NOT_BIND_THREADS\<close> is unset and, for thread 0 only,
  \<^verbatim>\<open>GALOIS_DO_NOT_BIND_MAIN_THREAD\<close> is unset too; for any other thread the second
  option changes nothing of what \<^verbatim>\<open>initThread\<close> does.
\<close>

theorem initThread_binds_iff:
  "(BindThreadToProcessor p \<in> set (initThread_actions env tid) \<longleftrightarrow>
      p = tid \<and> \<not> env ''GALOIS_DO_NOT_BIND_THREADS'' \<and>
      (tid = 0 \<longrightarrow> \<not> env ''GALOIS_DO_NOT_BIND_MAIN_THREAD''))
   \<and> (tid \<noteq> 0 \<longrightarrow>
        initThread_actions (env(''GALOIS_DO_NOT_BIND_MAIN_THREAD'' := b)) tid =
        initThread_actions env tid)
   \<and> inits (initThread tid s) tid = inits s tid @ initThread_actions (EnvCheck s) tid"
  by (auto simp: initThread_actions_def initThread_def)

theorem initThread_binds_iff_witness:
  "BindThreadToProcessor 3 \<in>
     set (initThread_actions ((\<lambda>_. False)(''GALOIS_DO_NOT_BIND_MAIN_THREAD'' := True)) 3)
   \<and> BindThreadToProcessor 0 \<notin>
     set (initThread_actions ((\<lambda>_. False)(''GALOIS_DO_NOT_BIND_MAIN_THREAD'' := True)) 0)
   \<and> BindThreadToProcessor 0 \<in> set (initThread_actions (\<lambda>_. False) 0)
   \<and> BindThreadToProcessor 3 \<notin>
     set (initThread_actions ((\<lambda>_. False)(''GALOIS_DO_NOT_BIND_THREADS'' := True)) 3)"
  using initThread_binds_iff [of 3 "(\<lambda>_. False)(''GALOIS_DO_NOT_BIND_MAIN_THREAD'' := True)" 3,
      THEN conjunct1]
    initThread_binds_iff [of 0 "(\<lambda>_. False)(''GALOIS_DO_NOT_BIND_MAIN_THREAD'' := True)" 0,
      THEN conjunct1]
    initThread_binds_iff [of 0 "\<lambda>_. False" 0, THEN conjunct1]
    initThread_binds_iff [of 3 "(\<lambda>_. False)(''GALOIS_DO_NOT_BIND_THREADS'' := True)" 3,
      THEN conjunct1]
  by simp

section \<open>One invocation: the invariant of \<^verbatim>\<open>runInternal\<close>\<close>

lemma slot_cases: "0 < t \<Longrightarrow> slot t = 1 \<or> slot t = 2"
  unfolding slot_def parent_def by presburger

lemma child_eq: "0 < t \<Longrightarrow> 2 * parent t + slot t = t"
  unfolding slot_def parent_def by presburger

lemma parent_less: "0 < t \<Longrightarrow> parent t < t"
  unfolding parent_def by presburger

lemma child1_iff: "(t = 2 * u + 1) = (0 < t \<and> parent t = u \<and> slot t = 1)"
  unfolding slot_def parent_def by presburger

lemma child2_iff: "(t = 2 * u + 2) = (0 < t \<and> parent t = u \<and> slot t = 2)"
  unfolding slot_def parent_def by presburger

lemma u32_id: "n < 2 ^ 32 \<Longrightarrow> u32 n = n"
  by (simp add: u32_def)

lemma boot_disabled: "run_inv k ws s \<Longrightarrow> boot_step i s = None"
  by (auto simp: run_inv_def boot_step_def split: handle.splits)

lemma same_release_preserves:
  assumes "worker_inv k ws s t"
    and "\<And>q. casc_done s' q = casc_done s q"
    and "posts s' t = posts s t"
    and "starts s' t + (if acquired s' t then 1 else 0) = starts s t + (if acquired s t then 1 else 0)"
    and "local_ok ws s' t"
  shows "worker_inv k ws s' t"
  using assms unfolding worker_inv_def gate_ok_def released_def by simp

lemma cascade_preserves:
  assumes W: "worker_inv k ws s t"
    and i: "i = 1 \<or> i = 2"
    and cd: "casc_done s p = i - 1"
    and cd': "\<And>q. casc_done s' q = (if q = p then i else casc_done s q)"
    and posts': "posts s' = (if 2 * p + i < k then (posts s)(2 * p + i := posts s (2 * p + i) + 1) else posts s)"
    and starts': "starts s' = (if 2 * p + i < k then (starts s)(2 * p + i := starts s (2 * p + i) + 1) else starts s)"
    and acq: "acquired s' t = acquired s t"
    and loc: "local_ok ws s' t"
  shows "worker_inv k ws s' t"
proof (cases "t = 2 * p + i")
  case True
  then have pt: "0 < t" "parent t = p" "slot t = i"
    using i child1_iff [of t p] child2_iff [of t p] by auto
  have "\<not> released k s t"
    using pt cd i by (auto simp: released_def)
  moreover have "released k s' t = (t < k)"
    using pt cd' by (simp add: released_def)
  ultimately show ?thesis
    using W True acq loc by (simp add: worker_inv_def gate_ok_def posts' starts')
next
  case False
  have "released k s' t = released k s t"
  proof (cases "0 < t \<and> parent t = p")
    case True
    then have "slot t \<noteq> i"
      using False i child1_iff [of t p] child2_iff [of t p] by auto
    moreover have "slot t = 1 \<or> slot t = 2"
      using True slot_cases by blast
    ultimately show ?thesis
      using True cd cd' i by (auto simp: released_def)
  next
    case False
    then show ?thesis
      using cd' by (auto simp: released_def)
  qed
  then show ?thesis
    using W False acq loc by (simp add: worker_inv_def gate_ok_def posts' starts')
qed

lemma mpc_ok_frame:
  assumes "mpc_ok k ws s m"
    and "executed s' 0 = executed s 0" "starting s' = starting s" "work s' = work s"
    and "started s' = started s" "signals s' = signals s"
    and "before_cascade m \<Longrightarrow> nobody_started s \<Longrightarrow> nobody_started s'"
  shows "mpc_ok k ws s' m"
  using assms by (cases m) (simp_all add: published_def done_count_def all_done_def)

lemma mpc_ok_running:
  assumes "mpc_ok k ws s m" "running m" "published k ws s'" "executed s' 0 = executed s 0"
  shows "mpc_ok k ws s' m"
  using assms by (cases m) simp_all

lemma run_inv_worker: "run_inv k ws s \<Longrightarrow> 0 < t \<Longrightarrow> t < maxThreads s \<Longrightarrow> worker_inv k ws s t"
  unfolding run_inv_def by blast

lemma run_inv_main: "run_inv k ws s \<Longrightarrow> mpc_ok k ws s (mpc s)"
  unfolding run_inv_def by blast

lemma run_inv_outside:
  "run_inv k ws s \<Longrightarrow> \<not> (0 < t \<and> t < maxThreads s) \<Longrightarrow>
   wpc s t = WNone \<and> posts s t = 0 \<and> (0 < t \<longrightarrow> signals s t = 0 \<and> executed s t = [])"
  unfolding run_inv_def by blast

lemma run_inv_consts:
  "run_inv k ws s \<Longrightarrow>
   \<not> shutdown s \<and> num s = k \<and> 0 < k \<and> k \<le> maxThreads s \<and> maxThreads s < 2 ^ 31 \<and>
   signals s 0 = 0 \<and> (\<forall>i. threads s i \<noteq> Created)"
  unfolding run_inv_def by blast

lemma run_inv_frame:
  assumes "run_inv k ws s"
    and "shutdown s' = shutdown s" "num s' = num s" "maxThreads s' = maxThreads s"
    and "threads s' = threads s" "signals s' 0 = signals s 0"
    and "mpc_ok k ws s' (mpc s')"
    and "\<And>t. 0 < t \<Longrightarrow> t < maxThreads s \<Longrightarrow> worker_inv k ws s t \<Longrightarrow> worker_inv k ws s' t"
    and "\<And>t. \<not> (0 < t \<and> t < maxThreads s) \<Longrightarrow>
           wpc s' t = wpc s t \<and> posts s' t = posts s t \<and>
           (0 < t \<longrightarrow> signals s' t = signals s t \<and> executed s' t = executed s t)"
  shows "run_inv k ws s'"
  using assms unfolding run_inv_def by auto

lemma wpc_ok_signals: "wpc_ok ws p sg ex \<Longrightarrow> sg = 0 \<or> (sg = 1 \<and> \<not> in_round p \<and> ex = ws)"
  by (cases p) (auto simp: parked_ok_def)

lemma wpc_ok_in_round: "wpc_ok ws p sg ex \<Longrightarrow> in_round p \<Longrightarrow> sg = 0"
  by (cases p) auto

lemma wcasc_pos: "0 < wcasc p sg \<Longrightarrow> in_round p \<or> sg \<noteq> 0"
  by (cases p) (auto split: if_splits)

lemma worker_inv_posts: "worker_inv k ws s u \<Longrightarrow> posts s u = (if released k s u then 1 else 0)"
  by (simp add: worker_inv_def)

lemma worker_inv_gate:
  "worker_inv k ws s u \<Longrightarrow> starts s u + (if acquired s u then 1 else 0) = posts s u"
  by (simp add: worker_inv_def gate_ok_def)

lemma worker_inv_local:
  "worker_inv k ws s u \<Longrightarrow> wpc_ok ws (wpc s u) (signals s u) (executed s u)"
  by (simp add: worker_inv_def local_ok_def)

lemma acquired_released:
  assumes W: "worker_inv k ws s u" and a: "acquired s u \<or> 0 < starts s u"
  shows "released k s u" "posts s u = 1"
proof -
  have "0 < posts s u"
    using worker_inv_gate [OF W] a by (cases "acquired s u") simp_all
  then show "released k s u"
    using worker_inv_posts [OF W] by (cases "released k s u") simp_all
  then show "posts s u = 1"
    using worker_inv_posts [OF W] by simp
qed

lemma in_round_facts:
  assumes inv: "run_inv k ws s" and u: "0 < u" "u < maxThreads s" and r: "in_round (wpc s u)"
  shows "published k ws s" "u < k" "signals s u = 0" "running (mpc s)"
proof -
  have W: "worker_inv k ws s u"
    using inv u by (rule run_inv_worker)
  have M: "mpc_ok k ws s (mpc s)"
    using inv by (rule run_inv_main)
  show sg: "signals s u = 0"
    using worker_inv_local [OF W] r by (rule wpc_ok_in_round)
  have "acquired s u"
    using r by (simp add: acquired_def)
  then have "released k s u"
    using W acquired_released by blast
  then show uk: "u < k"
    by (simp add: released_def)
  show run: "running (mpc s)"
  proof (cases "mpc s")
    case (MPublish x)
    then show ?thesis using M r by (simp add: nobody_started_def)
  next
    case MReset
    then show ?thesis using M r by (simp add: nobody_started_def)
  next
    case MClear
    then have "signals s u = 1" using M u uk by (simp add: all_done_def)
    then show ?thesis using sg by simp
  next
    case MIdle
    then have "signals s u = 1" using M u uk by (simp add: all_done_def)
    then show ?thesis using sg by simp
  qed (use M in simp_all)
  show "published k ws s"
    using M run by (cases "mpc s") simp_all
qed

lemma can_acquire_facts:
  assumes inv: "run_inv k ws s" and u: "0 < u" "u < maxThreads s"
    and pc: "wpc s u = WAcquire" and g: "0 < starts s u"
  shows "\<not> before_cascade (mpc s)" "signals s u = 0" "executed s u = []" "starts s u = 1"
    "posts s u = 1"
proof -
  have W: "worker_inv k ws s u"
    using inv u by (rule run_inv_worker)
  have M: "mpc_ok k ws s (mpc s)"
    using inv by (rule run_inv_main)
  have rel: "released k s u" and p1: "posts s u = 1"
    using W g acquired_released by blast+
  show "posts s u = 1" by (rule p1)
  have na: "\<not> acquired s u"
    using worker_inv_gate [OF W] g p1 by (cases "acquired s u") simp_all
  then show "starts s u = 1"
    using worker_inv_gate [OF W] p1 by simp
  show sg: "signals s u = 0"
    using na by (simp add: acquired_def)
  show "executed s u = []"
    using worker_inv_local [OF W] sg pc by (simp add: parked_ok_def)
  have "slot u = 1 \<or> slot u = 2"
    using u slot_cases by blast
  then have pos: "0 < casc_done s (parent u)"
    using rel by (auto simp: released_def)
  show "\<not> before_cascade (mpc s)"
  proof (cases "parent u = 0")
    case True
    then have "0 < mcasc (mpc s)"
      using pos by (simp add: casc_done_def)
    then show ?thesis
      by (cases "mpc s") simp_all
  next
    case False
    then have "0 < wcasc (wpc s (parent u)) (signals s (parent u))"
      using pos by (simp add: casc_done_def)
    then have "in_round (wpc s (parent u)) \<or> signals s (parent u) \<noteq> 0"
      by (rule wcasc_pos)
    then have "\<not> nobody_started s"
      by (auto simp: nobody_started_def)
    then show ?thesis
      using M by (cases "mpc s") simp_all
  qed
qed

lemma worker_range:
  assumes "run_inv k ws s" "worker_step u s = Some s'"
  shows "0 < u \<and> u < maxThreads s"
proof (rule ccontr)
  assume "\<not> (0 < u \<and> u < maxThreads s)"
  then have "wpc s u = WNone"
    using run_inv_outside [OF assms(1)] by blast
  then show False
    using assms(2) by (simp add: worker_step_def)
qed

lemma done_count_signal:
  assumes "signals s u = 0" "0 < u" "u < k"
  shows "done_count k (s\<lparr>started := x, signals := (signals s)(u := Suc 0), wpc := y\<rparr>) = Suc (done_count k s)"
proof -
  have "{t. 0 < t \<and> t < k \<and> ((signals s)(u := Suc 0)) t \<noteq> 0} =
      insert u {t. 0 < t \<and> t < k \<and> signals s t \<noteq> 0}"
    using assms by auto
  moreover have "u \<notin> {t. 0 < t \<and> t < k \<and> signals s t \<noteq> 0}"
    using assms by simp
  moreover have "finite {t. 0 < t \<and> t < k \<and> signals s t \<noteq> 0}"
    by simp
  ultimately show ?thesis
    by (simp add: done_count_def)
qed

lemma done_count_less:
  assumes "signals s u = 0" "0 < u" "u < k"
  shows "done_count k s < k - 1"
proof -
  have "{t. 0 < t \<and> t < k \<and> signals s t \<noteq> 0} \<subseteq> {1..<k} - {u}"
    using assms by auto
  then have "done_count k s \<le> card ({1..<k} - {u})"
    unfolding done_count_def by (intro card_mono) auto
  also have "\<dots> < k - 1"
    using assms by (simp add: card_Diff_singleton_if)
  finally show ?thesis .
qed

lemma s32_id: "- (2 ^ 31) \<le> x \<Longrightarrow> x < 2 ^ 31 \<Longrightarrow> s32 x = x"
  by (simp add: s32_def)

lemma running_not_before: "running m \<Longrightarrow> \<not> before_cascade m"
  by (cases m) simp_all

lemma cascade_body_eq:
  "tid * 2 + i < 2 ^ 32 \<Longrightarrow>
   cascade_body tid i s =
     (if 2 * tid + i < starting s then gate_release (2 * tid + i) s else s)"
  unfolding cascade_body_def multiple_def Let_def
  using u32_id [of "tid * 2 + i"] by (simp add: mult.commute)

lemma worker_step_preserves:
  assumes inv: "run_inv k ws s" and st: "worker_step u s = Some s'"
  shows "run_inv k ws s'"
proof -
  have u: "0 < u" "u < maxThreads s"
    using worker_range [OF inv st] by simp_all
  have W: "worker_inv k ws s u"
    using inv u by (rule run_inv_worker)
  have M: "mpc_ok k ws s (mpc s)"
    using inv by (rule run_inv_main)
  have C: "\<not> shutdown s" "k \<le> maxThreads s" "maxThreads s < 2 ^ 31"
    using run_inv_consts [OF inv] by simp_all
  show ?thesis
  proof (cases "wpc s u")
    case WNone
    then show ?thesis using st by (simp add: worker_step_def)
  next
    case WStart
    then show ?thesis using worker_inv_local [OF W] by simp
  next
    case WExit
    then show ?thesis using st by (simp add: worker_step_def)
  next
    case WLoop
    then have s': "s' = s\<lparr>wpc := (wpc s)(u := WAcquire)\<rparr>"
      using st C by (simp add: worker_step_def)
    have cd: "casc_done s' q = casc_done s q" for q
      using WLoop by (simp add: s' casc_done_def)
    have acq: "acquired s' t = acquired s t" for t
      using WLoop by (simp add: s' acquired_def)
    have loc: "local_ok ws s t \<Longrightarrow> local_ok ws s' t" for t
      using WLoop by (auto simp: s' local_ok_def)
    show ?thesis
    proof (rule run_inv_frame [OF inv])
      show "mpc_ok k ws s' (mpc s')"
        using M u WLoop by (auto intro!: mpc_ok_frame [where s = s] simp: s' nobody_started_def)
      show "worker_inv k ws s' t" if "worker_inv k ws s t" for t
        using that cd
      proof (rule same_release_preserves)
        show "local_ok ws s' t" using that loc by (simp add: worker_inv_def)
      qed (simp_all add: acq, simp_all add: s')
    qed (use u in \<open>auto simp: s'\<close>)
  next
    case WAcquire
    then have g: "0 < starts s u"
      and s': "s' = s\<lparr>starts := (starts s)(u := starts s u - 1), wpc := (wpc s)(u := WCascade 1)\<rparr>"
      using st by (auto simp: worker_step_def gate_acquire_def split: if_splits)
    note f = can_acquire_facts [OF inv u WAcquire g]
    have cd: "casc_done s' q = casc_done s q" for q
      using WAcquire f by (simp add: s' casc_done_def)
    show ?thesis
    proof (rule run_inv_frame [OF inv])
      show "mpc_ok k ws s' (mpc s')"
        using M f by (auto intro!: mpc_ok_frame [where s = s] dest: running_not_before simp: s')
      show "worker_inv k ws s' t" if "worker_inv k ws s t" for t
        using that cd
      proof (rule same_release_preserves)
        show "local_ok ws s' t"
          using that f by (simp add: worker_inv_def local_ok_def s')
        show "starts s' t + (if acquired s' t then 1 else 0) =
            starts s t + (if acquired s t then 1 else 0)"
          using f by (simp add: s' acquired_def WAcquire)
      qed (simp add: s')
    qed (use u in \<open>auto simp: s'\<close>)
  next
    case (WCascade i)
    then have r: "in_round (wpc s u)" by simp
    note f = in_round_facts [OF inv u r]
    have i: "i = 1 \<or> i = 2"
      using worker_inv_local [OF W] WCascade by simp
    have "u * 2 + i < 2 ^ 32"
      using u C i by auto
    then have cb: "cascade_body u i s =
        (if 2 * u + i < k then gate_release (2 * u + i) s else s)"
      using f(1) by (simp add: cascade_body_eq published_def)
    have pcn: "(if i + 1 \<le> multiple then WCascade (i + 1) else WFetch) =
        (if i = 1 then WCascade 2 else (WFetch :: 'a wpc))"
      using i by (auto simp: multiple_def)
    have "s' = (cascade_body u i s)
        \<lparr>wpc := (wpc s)(u := (if i + 1 \<le> multiple then WCascade (i + 1) else WFetch))\<rparr>"
      using st WCascade by (simp add: worker_step_def)
    then have s': "s' = (if 2 * u + i < k then gate_release (2 * u + i) s else s)
        \<lparr>wpc := (wpc s)(u := (if i = 1 then WCascade 2 else WFetch))\<rparr>"
      unfolding pcn cb .
    show ?thesis
    proof (rule run_inv_frame [OF inv])
      show "mpc_ok k ws s' (mpc s')"
        using M f by (auto intro!: mpc_ok_frame [where s = s] dest: running_not_before
            simp: s' gate_release_def)
      show "worker_inv k ws s' t" if "worker_inv k ws s t" for t
        using that i
      proof (rule cascade_preserves [where p = u])
        show "casc_done s u = i - 1"
          using u WCascade by (simp add: casc_done_def)
        show "casc_done s' q = (if q = u then i else casc_done s q)" for q
          using u i by (auto simp: s' casc_done_def gate_release_def)
        show "acquired s' t = acquired s t"
          using WCascade by (simp add: s' acquired_def gate_release_def)
        show "local_ok ws s' t"
          using that WCascade worker_inv_local [OF W]
          by (auto simp: s' worker_inv_def local_ok_def gate_release_def)
      qed (simp_all add: s' gate_release_def)
    qed (use u C in \<open>auto simp: s' gate_release_def\<close>)
  next
    case WFetch
    then have r: "in_round (wpc s u)" by simp
    note f = in_round_facts [OF inv u r]
    have s': "s' = s\<lparr>wpc := (wpc s)(u := WWork ws)\<rparr>"
      using st WFetch f(1) by (simp add: worker_step_def published_def)
    have cd: "casc_done s' q = casc_done s q" for q
      using WFetch by (simp add: s' casc_done_def)
    show ?thesis
    proof (rule run_inv_frame [OF inv])
      show "mpc_ok k ws s' (mpc s')"
        using M f by (auto intro!: mpc_ok_frame [where s = s] dest: running_not_before simp: s')
      show "worker_inv k ws s' t" if "worker_inv k ws s t" for t
        using that cd
      proof (rule same_release_preserves)
        show "local_ok ws s' t"
          using that WFetch by (auto simp: worker_inv_def local_ok_def s')
      qed (simp_all add: s' acquired_def WFetch)
    qed (use u in \<open>auto simp: s'\<close>)
  next
    case (WWork cs)
    then have r: "in_round (wpc s u)" by simp
    note f = in_round_facts [OF inv u r]
    show ?thesis
    proof (cases cs)
      case (Cons c cs')
      then have s': "s' = s\<lparr>executed := (executed s)(u := executed s u @ [c]),
          wpc := (wpc s)(u := WWork cs')\<rparr>"
        using st WWork by (simp add: worker_step_def run_command_def)
      have cd: "casc_done s' q = casc_done s q" for q
        using WWork by (simp add: s' casc_done_def)
      show ?thesis
      proof (rule run_inv_frame [OF inv])
        show "mpc_ok k ws s' (mpc s')"
          using M f u by (auto intro!: mpc_ok_frame [where s = s] dest: running_not_before
              simp: s')
        show "worker_inv k ws s' t" if "worker_inv k ws s t" for t
          using that cd
        proof (rule same_release_preserves)
          show "local_ok ws s' t"
            using that WWork Cons by (auto simp: worker_inv_def local_ok_def s')
        qed (simp_all add: s' acquired_def WWork)
      qed (use u in \<open>auto simp: s'\<close>)
    next
      case Nil
      have sg: "signals s u = 0" by (rule f(3))
      have s': "s' = s\<lparr>started := ThinBarrier_release (started s),
          signals := (signals s)(u := Suc 0), wpc := (wpc s)(u := WLoop)\<rparr>"
        using st WWork Nil sg by (simp add: worker_step_def signal_done_def)
      have cd: "casc_done s' q = casc_done s q" for q
        using WWork u by (simp add: s' casc_done_def)
      have dc: "done_count k s' = Suc (done_count k s)"
        unfolding s' using sg u(1) f(2) by (rule done_count_signal)
      have "done_count k s < k - 1"
        using sg u(1) f(2) by (rule done_count_less)
      then have rel: "ThinBarrier_release (started s) = int (done_count k s) + 1"
        using f(1) C by (simp add: ThinBarrier_release_def published_def s32_id)
      have pub: "published k ws s'"
        using f(1) dc rel by (simp add: published_def) (simp add: s')
      show ?thesis
      proof (rule run_inv_frame [OF inv])
        show "mpc_ok k ws s' (mpc s')"
          using M f(4) pub u by (auto intro!: mpc_ok_running [where s = s] simp: s')
        show "worker_inv k ws s' t" if "worker_inv k ws s t" for t
          using that cd
        proof (rule same_release_preserves)
          show "local_ok ws s' t"
            using that WWork Nil by (auto simp: worker_inv_def local_ok_def s' parked_ok_def)
        qed (simp_all add: s' acquired_def WWork)
      qed (use u in \<open>auto simp: s'\<close>)
    qed
  qed
qed

lemma wait_count:
  assumes k: "0 < k" "k < 2 ^ 31"
  shows "int_of_unsigned (u32 (k + 2 ^ 32 - 1)) = int k - 1"
proof -
  have e: "k + 2 ^ 32 - 1 = (k - 1) + 2 ^ 32"
    using k by simp
  have "u32 (k + 2 ^ 32 - 1) = u32 ((k - 1) + 2 ^ 32)"
    by (simp only: e)
  also have "\<dots> = (k - 1) mod 2 ^ 32"
    unfolding u32_def by (rule mod_add_self2)
  also have "\<dots> = k - 1"
    using k by (intro mod_less) simp
  finally have eq: "u32 (k + 2 ^ 32 - 1) = k - 1" .
  have eq2: "u32 (k - 1) = k - 1"
    using k by (intro u32_id) simp
  have "int_of_unsigned (k - 1) = int (k - 1)"
    unfolding int_of_unsigned_def eq2 using k by simp
  then show ?thesis
    unfolding eq using k by simp
qed

lemma barrier_passed_all_done:
  assumes inv: "run_inv k ws s"
    and cnt: "started s = int (done_count k s)"
    and pass: "ThinBarrier_passable (started s) (int_of_unsigned (u32 (num s + 2 ^ 32 - 1)))"
  shows "all_done k s"
proof -
  have C: "num s = k" "0 < k" "k \<le> maxThreads s" "maxThreads s < 2 ^ 31"
    using run_inv_consts [OF inv] by simp_all
  have "int_of_unsigned (u32 (num s + 2 ^ 32 - 1)) = int k - 1"
    unfolding C(1) using C by (intro wait_count) auto
  then have ge: "k - 1 \<le> done_count k s"
    using pass cnt by (simp add: ThinBarrier_passable_def)
  let ?S = "{t. 0 < t \<and> t < k \<and> signals s t \<noteq> 0}"
  have sub: "?S \<subseteq> {1..<k}"
    by auto
  have "card {1..<k} \<le> card ?S"
    using ge by (simp add: done_count_def)
  then have eq: "?S = {1..<k}"
    using sub by (intro card_seteq) auto
  show ?thesis
    unfolding all_done_def
  proof (intro allI impI)
    fix t
    assume t: "0 < t \<and> t < k"
    then have "t \<in> ?S"
      unfolding eq by auto
    then have nz: "signals s t \<noteq> 0"
      by simp
    have "worker_inv k ws s t"
      using inv t C by (intro run_inv_worker) auto
    then have "signals s t = 0 \<or> signals s t = 1"
      using wpc_ok_signals [OF worker_inv_local] by blast
    then show "signals s t = 1"
      using nz by simp
  qed
qed

lemma main_step_preserves:
  assumes inv: "run_inv k ws s" and st: "main_step s = Some s'"
  shows "run_inv k ws s'"
proof -
  have M: "mpc_ok k ws s (mpc s)"
    using inv by (rule run_inv_main)
  have C: "num s = k" "0 < k" "k \<le> maxThreads s" "maxThreads s < 2 ^ 31"
    using run_inv_consts [OF inv] by simp_all
  have keep: "worker_inv k ws s' t"
    if "worker_inv k ws s t" "mcasc (mpc s') = mcasc (mpc s)" "wpc s' = wpc s"
      "signals s' = signals s" "posts s' = posts s" "starts s' = starts s"
      "0 < t \<longrightarrow> executed s' t = executed s t" "0 < t" for t
    using that(1)
  proof (rule same_release_preserves)
    show "casc_done s' q = casc_done s q" for q
      using that by (simp add: casc_done_def)
    show "local_ok ws s' t"
      using that by (simp add: worker_inv_def local_ok_def)
  qed (use that in \<open>simp_all add: acquired_def\<close>)
  show ?thesis
  proof (cases "mpc s")
    case (MPublish ws')
    then have s': "s' = s\<lparr>starting := num s, work := ws', mpc := MReset\<rparr>"
      using st by (simp add: main_step_def)
    show ?thesis
    proof (rule run_inv_frame [OF inv])
      show "mpc_ok k ws s' (mpc s')"
        using M MPublish C by (simp add: s' nobody_started_def)
      show "worker_inv k ws s' t" if "worker_inv k ws s t" "0 < t" for t
        using that MPublish by (intro keep) (simp_all add: s')
    qed (simp_all add: s')
  next
    case MReset
    then have s': "s' = s\<lparr>started := ThinBarrier_reset (started s), mpc := MCascade 1\<rparr>"
      using st by (simp add: main_step_def)
    have "{t. 0 < t \<and> t < k \<and> signals s t \<noteq> 0} = {}"
      using M MReset by (auto simp: nobody_started_def)
    then have "done_count k s' = 0"
      by (simp add: done_count_def s')
    then have pub: "published k ws s'"
      using M MReset by (simp add: published_def) (simp add: s' ThinBarrier_reset_def)
    show ?thesis
    proof (rule run_inv_frame [OF inv])
      show "mpc_ok k ws s' (mpc s')"
        using M MReset pub by (simp add: s')
      show "worker_inv k ws s' t" if "worker_inv k ws s t" "0 < t" for t
        using that MReset by (intro keep) (simp_all add: s')
    qed (simp_all add: s')
  next
    case (MCascade i)
    then have i: "i = 1 \<or> i = 2" and pub: "published k ws s" and ex: "executed s 0 = []"
      using M by simp_all
    have "0 * 2 + i < (2 :: nat) ^ 32"
      using i by auto
    then have cb: "cascade_body 0 i s = (if 2 * 0 + i < k then gate_release (2 * 0 + i) s else s)"
      using pub by (simp add: cascade_body_eq published_def)
    have pcn: "(if i + 1 \<le> multiple then MCascade (i + 1) else MFetch) =
        (if i = 1 then MCascade 2 else (MFetch :: 'a mpc))"
      using i by (auto simp: multiple_def)
    have "s' = (cascade_body 0 i s)\<lparr>mpc := (if i + 1 \<le> multiple then MCascade (i + 1) else MFetch)\<rparr>"
      using st MCascade by (simp add: main_step_def)
    then have s': "s' = (if 2 * 0 + i < k then gate_release (2 * 0 + i) s else s)
        \<lparr>mpc := (if i = 1 then MCascade 2 else MFetch)\<rparr>"
      unfolding pcn cb .
    show ?thesis
    proof (rule run_inv_frame [OF inv])
      show "mpc_ok k ws s' (mpc s')"
        using pub ex i by (auto simp: s' gate_release_def published_def done_count_def)
      show "worker_inv k ws s' t" if "worker_inv k ws s t" "0 < t" for t
        using that(1) i
      proof (rule cascade_preserves [where p = 0])
        show "casc_done s 0 = i - 1"
          using MCascade by (simp add: casc_done_def)
        show "casc_done s' q = (if q = 0 then i else casc_done s q)" for q
          using i by (auto simp: s' casc_done_def gate_release_def)
        show "acquired s' t = acquired s t"
          by (simp add: s' acquired_def gate_release_def)
        show "local_ok ws s' t"
          using that by (auto simp: s' worker_inv_def local_ok_def gate_release_def)
      qed (simp_all add: s' gate_release_def)
    qed (use C i in \<open>auto simp: s' gate_release_def\<close>)
  next
    case MFetch
    then have s': "s' = s\<lparr>mpc := MWork ws\<rparr>"
      using st M by (simp add: main_step_def published_def)
    show ?thesis
    proof (rule run_inv_frame [OF inv])
      show "mpc_ok k ws s' (mpc s')"
        using M MFetch by (simp add: s' published_def done_count_def)
      show "worker_inv k ws s' t" if "worker_inv k ws s t" "0 < t" for t
        using that MFetch by (intro keep) (simp_all add: s')
    qed (simp_all add: s')
  next
    case (MWork cs)
    show ?thesis
    proof (cases cs)
      case Nil
      then have s': "s' = s\<lparr>mpc := MWait\<rparr>"
        using st MWork by (simp add: main_step_def)
      show ?thesis
      proof (rule run_inv_frame [OF inv])
        show "mpc_ok k ws s' (mpc s')"
          using M MWork Nil by (simp add: s' published_def done_count_def)
        show "worker_inv k ws s' t" if "worker_inv k ws s t" "0 < t" for t
          using that MWork by (intro keep) (simp_all add: s')
      qed (simp_all add: s')
    next
      case (Cons c cs')
      then have s': "s' = s\<lparr>executed := (executed s)(0 := executed s 0 @ [c]), mpc := MWork cs'\<rparr>"
        using st MWork by (simp add: main_step_def run_command_def)
      show ?thesis
      proof (rule run_inv_frame [OF inv])
        show "mpc_ok k ws s' (mpc s')"
          using M MWork Cons by (simp add: s' published_def done_count_def)
        show "worker_inv k ws s' t" if "worker_inv k ws s t" "0 < t" for t
          using that MWork by (intro keep) (simp_all add: s')
      qed (simp_all add: s')
    qed
  next
    case MWait
    then have pass: "ThinBarrier_passable (started s) (int_of_unsigned (u32 (num s + 2 ^ 32 - 1)))"
      and s': "s' = s\<lparr>mpc := MClear\<rparr>"
      using st by (auto simp: main_step_def split: if_splits)
    have "all_done k s"
      using inv _ pass by (rule barrier_passed_all_done) (use M MWait in \<open>simp add: published_def\<close>)
    then have ad: "all_done k s'"
      by (simp add: all_done_def s')
    show ?thesis
    proof (rule run_inv_frame [OF inv])
      show "mpc_ok k ws s' (mpc s')"
        using M MWait ad by (simp add: published_def done_count_def s')
      show "worker_inv k ws s' t" if "worker_inv k ws s t" "0 < t" for t
        using that MWait by (intro keep) (simp_all add: s')
    qed (simp_all add: s')
  next
    case MClear
    then have s': "s' = s\<lparr>work := [], mpc := MIdle\<rparr>"
      using st by (simp add: main_step_def)
    show ?thesis
    proof (rule run_inv_frame [OF inv])
      show "mpc_ok k ws s' (mpc s')"
        using M MClear by (simp add: s' published_def done_count_def all_done_def)
      show "worker_inv k ws s' t" if "worker_inv k ws s t" "0 < t" for t
        using that MClear by (intro keep) (simp_all add: s')
    qed (simp_all add: s')
  next
    case MIdle
    then show ?thesis using st by (simp add: main_step_def)
  qed (use M in simp_all)
qed

lemma step_preserves: "run_inv k ws s \<Longrightarrow> step e s = Some s' \<Longrightarrow> run_inv k ws s'"
  by (cases e) (auto intro: main_step_preserves worker_step_preserves simp: boot_disabled)

lemma exec_preserves: "run_inv k ws s \<Longrightarrow> run_inv k ws (exec sched s)"
proof (induction sched arbitrary: s)
  case Nil
  then show ?case by simp
next
  case (Cons e sched)
  show ?case
  proof (cases "step e s")
    case None
    then show ?thesis using Cons by simp
  next
    case (Some s')
    then have "run_inv k ws s'"
      using Cons.prems step_preserves by blast
    then show ?thesis
      using Cons.IH Some by simp
  qed
qed

lemma run_inv_initial:
  assumes q: "quiescent s"
  shows "run_inv (min (max n 1) (maxThreads s)) ws (runInternal n ws (observe s))"
proof -
  let ?k = "min (max n 1) (maxThreads s)"
  let ?s = "runInternal n ws (observe s)"
  have Q: "\<not> shutdown s" "0 < maxThreads s" "maxThreads s < 2 ^ 31"
    using q by (simp_all add: quiescent_def)
  have pk: "0 < t \<Longrightarrow> t < maxThreads s \<Longrightarrow> (wpc s t = WLoop \<or> wpc s t = WAcquire) \<and> starts s t = 0" for t
    using q unfolding quiescent_def by metis
  have out: "\<not> (0 < t \<and> t < maxThreads s) \<Longrightarrow> wpc s t = WNone" for t
    using q unfolding quiescent_def by metis
  have th: "threads s i \<noteq> Created" for i
    using q unfolding quiescent_def by (metis handle.distinct(1,5))
  have nr: "\<not> in_round (wpc s t)" for t
    using pk [of t] out [of t] by (cases "0 < t \<and> t < maxThreads s") auto
  have cd: "casc_done ?s p = 0" for p
    using nr [of p] by (cases "wpc s p") (simp_all add: casc_done_def runInternal_def observe_def)
  have W: "worker_inv ?k ws ?s t" if "0 < t" "t < maxThreads s" for t
  proof -
    have "slot t = 1 \<or> slot t = 2"
      using that slot_cases by blast
    then have "\<not> released ?k ?s t"
      by (auto simp: released_def cd)
    moreover have "\<not> acquired ?s t"
      using nr [of t] by (simp add: acquired_def runInternal_def observe_def)
    moreover have "local_ok ws ?s t"
      using pk [OF that] by (auto simp: local_ok_def runInternal_def observe_def parked_ok_def)
    ultimately show ?thesis
      using pk [OF that] by (simp add: worker_inv_def gate_ok_def) (simp add: runInternal_def observe_def)
  qed
  show ?thesis
    unfolding run_inv_def
  proof (intro conjI allI impI)
    show "mpc_ok ?k ws ?s (mpc ?s)"
      using nr by (simp add: runInternal_def observe_def nobody_started_def)
    show "worker_inv ?k ws ?s t" if "0 < t \<and> t < maxThreads ?s" for t
      using that W by (simp add: runInternal_def observe_def)
  qed (use Q th out in \<open>auto simp: runInternal_def observe_def\<close>)
qed

lemma same_pool_step:
  assumes inv: "run_inv k ws s" and st: "step e s = Some s'" and sp: "same_pool s0 s"
  shows "same_pool s0 s'"
proof (cases e)
  case EvMain
  have M: "mpc_ok k ws s (mpc s)"
    using inv by (rule run_inv_main)
  show ?thesis
    using st sp M unfolding EvMain
    by (cases "mpc s")
      (auto simp: main_step_def same_pool_def cascade_body_def gate_release_def run_command_def
        Let_def split: if_splits list.splits)
next
  case (EvBoot i)
  then show ?thesis
    using st boot_disabled [OF inv] by simp
next
  case (EvWorker u)
  then have u: "0 < u \<and> u < maxThreads s"
    using worker_range [OF inv] st by simp
  have "wpc_ok ws (wpc s u) (signals s u) (executed s u)"
    using run_inv_worker [OF inv] u worker_inv_local by blast
  then show ?thesis
    using st sp unfolding EvWorker
    by (cases "wpc s u")
      (auto simp: worker_step_def same_pool_def cascade_body_def gate_release_def run_command_def
        signal_done_def gate_acquire_def Let_def split: if_splits list.splits)
qed

lemma exec_run:
  assumes "run_inv k ws s" "same_pool s0 s"
  shows "run_inv k ws (exec sched s) \<and> same_pool s0 (exec sched s)"
  using assms
proof (induction sched arbitrary: s)
  case Nil
  then show ?case by simp
next
  case (Cons e sched)
  show ?case
  proof (cases "step e s")
    case None
    then show ?thesis using Cons by simp
  next
    case (Some s')
    then have "run_inv k ws s'" "same_pool s0 s'"
      using Cons.prems step_preserves same_pool_step by blast+
    then show ?thesis
      using Cons.IH Some by simp
  qed
qed

lemma casc_done_finished:
  assumes inv: "run_inv k ws s" and ad: "all_done k s" and m: "mcasc (mpc s) = 2" and p: "p < k"
  shows "casc_done s p = 2"
proof (cases "p = 0")
  case True
  then show ?thesis using m by (simp add: casc_done_def)
next
  case False
  have C: "k \<le> maxThreads s"
    using run_inv_consts [OF inv] by simp
  have sg: "signals s p = 1"
    using ad False p by (simp add: all_done_def)
  have "wpc_ok ws (wpc s p) (signals s p) (executed s p)"
    using run_inv_worker [OF inv, of p] False p C worker_inv_local by auto
  then have "\<not> in_round (wpc s p)"
    using wpc_ok_signals sg by fastforce
  then have "wcasc (wpc s p) (signals s p) = 2"
    using sg by (cases "wpc s p") simp_all
  then show ?thesis
    using False by (simp add: casc_done_def)
qed

lemma run_inv_bounds:
  assumes inv: "run_inv k ws s"
  shows "posts s t \<le> (if 0 < t \<and> t < k then 1 else 0)"
    and "k \<le> t \<Longrightarrow> executed s t = [] \<and> signals s t = 0 \<and> \<not> in_round (wpc s t)"
proof -
  have C: "0 < k" "k \<le> maxThreads s"
    using run_inv_consts [OF inv] by simp_all
  show "posts s t \<le> (if 0 < t \<and> t < k then 1 else 0)"
  proof (cases "0 < t \<and> t < maxThreads s")
    case True
    then have "posts s t = (if released k s t then 1 else 0)"
      using run_inv_worker [OF inv] worker_inv_posts by blast
    then show ?thesis
      by (auto simp: released_def)
  next
    case False
    then show ?thesis
      using run_inv_outside [OF inv False] by simp
  qed
  show "executed s t = [] \<and> signals s t = 0 \<and> \<not> in_round (wpc s t)" if "k \<le> t"
  proof (cases "0 < t \<and> t < maxThreads s")
    case True
    then have W: "worker_inv k ws s t"
      using run_inv_worker [OF inv] by blast
    have "\<not> released k s t"
      using that by (simp add: released_def)
    then have na: "\<not> acquired s t"
      using acquired_released(1) [OF W] by blast
    then have "signals s t = 0" "\<not> in_round (wpc s t)"
      by (simp_all add: acquired_def)
    moreover have "executed s t = []"
      using worker_inv_local [OF W] calculation
      by (cases "wpc s t") (simp_all add: parked_ok_def)
    ultimately show ?thesis by simp
  next
    case False
    then show ?thesis
      using run_inv_outside [OF inv False] that C by simp
  qed
qed

lemma run_inv_returned:
  assumes inv: "run_inv k ws s" and idle: "mpc s = MIdle"
  shows "posts s t = (if 0 < t \<and> t < k then 1 else 0)"
    and "executed s t = (if t < k then ws else [])"
    and "signals s t = (if 0 < t \<and> t < k then 1 else 0)"
    and "0 < t \<Longrightarrow> t < maxThreads s \<Longrightarrow> (wpc s t = WLoop \<or> wpc s t = WAcquire) \<and> starts s t = 0"
    and "started s = int k - 1" and "work s = []" and "starting s = k"
proof -
  have C: "0 < k" "k \<le> maxThreads s" "signals s 0 = 0"
    using run_inv_consts [OF inv] by simp_all
  have M: "starting s = k" "work s = []" "started s = int (done_count k s)"
    "executed s 0 = ws" "all_done k s"
    using run_inv_main [OF inv] idle by simp_all
  show "work s = []" "starting s = k" by (rule M)+
  have "{t. 0 < t \<and> t < k \<and> signals s t \<noteq> 0} = {1..<k}"
    using M(5) by (auto simp: all_done_def)
  then show "started s = int k - 1"
    using M(3) C by (simp add: done_count_def)
  have rel: "released k s t" if "0 < t" "t < k" for t
  proof -
    have "parent t < k"
      using that parent_less [of t] by simp
    then have "casc_done s (parent t) = 2"
      using inv M(5) idle by (intro casc_done_finished) simp_all
    then show ?thesis
      using that slot_cases [of t] by (auto simp: released_def)
  qed
  have act: "posts s t = 1 \<and> signals s t = 1 \<and> executed s t = ws \<and>
      (wpc s t = WLoop \<or> wpc s t = WAcquire) \<and> starts s t = 0" if "0 < t" "t < k" for t
  proof -
    have W: "worker_inv k ws s t"
      using run_inv_worker [OF inv] that C by simp
    have p: "posts s t = 1"
      using worker_inv_posts [OF W] rel [OF that] by simp
    have sg: "signals s t = 1"
      using M(5) that by (simp add: all_done_def)
    have "acquired s t"
      using sg by (simp add: acquired_def)
    then have "starts s t = 0"
      using worker_inv_gate [OF W] p by simp
    moreover have "executed s t = ws \<and> (wpc s t = WLoop \<or> wpc s t = WAcquire)"
      using worker_inv_local [OF W] sg by (cases "wpc s t") (simp_all add: parked_ok_def)
    ultimately show ?thesis
      using p sg by simp
  qed
  have inact: "posts s t = 0 \<and> signals s t = 0 \<and> executed s t = [] \<and> \<not> in_round (wpc s t)"
    if "k \<le> t" for t
    using run_inv_bounds [OF inv, of t] that by simp
  show "posts s t = (if 0 < t \<and> t < k then 1 else 0)"
    using act [of t] inact [of t] run_inv_outside [OF inv, of 0] by (cases "t = 0") auto
  show "executed s t = (if t < k then ws else [])"
    using act [of t] inact [of t] M(4) by (cases "t = 0") auto
  show "signals s t = (if 0 < t \<and> t < k then 1 else 0)"
    using act [of t] inact [of t] C(3) by (cases "t = 0") auto
  show "(wpc s t = WLoop \<or> wpc s t = WAcquire) \<and> starts s t = 0"
    if t: "0 < t" "t < maxThreads s"
  proof (cases "t < k")
    case True
    then show ?thesis using act t by simp
  next
    case False
    have W: "worker_inv k ws s t"
      using run_inv_worker [OF inv] t by simp
    have i: "posts s t = 0" "signals s t = 0" "\<not> in_round (wpc s t)"
      using inact [of t] False by simp_all
    have "starts s t = 0"
      using worker_inv_gate [OF W] i by simp
    moreover have "wpc s t = WLoop \<or> wpc s t = WAcquire"
      using worker_inv_local [OF W] i(3) by (cases "wpc s t") simp_all
    ultimately show ?thesis by simp
  qed
qed

lemma quiescent_returned:
  assumes q: "quiescent s0" and inv: "run_inv k ws s" and sp: "same_pool s0 s"
    and idle: "mpc s = MIdle"
  shows "quiescent s"
proof -
  have C: "\<not> shutdown s" "k \<le> maxThreads s"
    using run_inv_consts [OF inv] by simp_all
  have S: "maxThreads s = maxThreads s0" "threads s = threads s0"
    using sp by (simp_all add: same_pool_def)
  note r = run_inv_returned [OF inv idle]
  have out: "\<not> (0 < t \<and> t < maxThreads s) \<Longrightarrow> wpc s t = WNone" for t
    using run_inv_outside [OF inv] by blast
  show ?thesis
    using q C r(4) r(6) r(7) out idle unfolding quiescent_def S by auto
qed

subsection \<open>The invocation returns\<close>

lemma worker_step_local:
  assumes inv: "run_inv k ws s" and st: "worker_step u s = Some s'"
  shows "mpc s' = mpc s \<and> maxThreads s' = maxThreads s \<and>
    (\<forall>t. t \<noteq> u \<longrightarrow> wpc s' t = wpc s t \<and> signals s' t = signals s t) \<and>
    wrem (length ws) (wpc s' u) (u < k \<and> signals s' u = 0) <
      wrem (length ws) (wpc s u) (u < k \<and> signals s u = 0)"
proof -
  have u: "0 < u" "u < maxThreads s"
    using worker_range [OF inv st] by simp_all
  have W: "worker_inv k ws s u"
    using inv u by (rule run_inv_worker)
  have C: "\<not> shutdown s"
    using run_inv_consts [OF inv] by simp
  show ?thesis
  proof (cases "wpc s u")
    case WNone
    then show ?thesis using st by (simp add: worker_step_def)
  next
    case WStart
    then show ?thesis using worker_inv_local [OF W] by simp
  next
    case WExit
    then show ?thesis using st by (simp add: worker_step_def)
  next
    case WLoop
    then show ?thesis
      using st C by (auto simp: worker_step_def)
  next
    case WAcquire
    then have g: "0 < starts s u"
      using st by (auto simp: worker_step_def gate_acquire_def split: if_splits)
    note f = can_acquire_facts [OF inv u WAcquire g]
    have "u < k"
      using run_inv_bounds(1) [OF inv, of u] f(5) by (cases "0 < u \<and> u < k") simp_all
    then show ?thesis
      using st WAcquire f(2) by (auto simp: worker_step_def gate_acquire_def split: if_splits)
  next
    case (WCascade i)
    then have i: "i = 1 \<or> i = 2"
      using worker_inv_local [OF W] by simp
    then show ?thesis
      using st WCascade
      by (auto simp: worker_step_def cascade_body_def gate_release_def multiple_def Let_def)
  next
    case WFetch
    then have "in_round (wpc s u)" by simp
    then have "work s = ws"
      using in_round_facts(1) [OF inv u] by (simp add: published_def)
    then show ?thesis
      using st WFetch by (auto simp: worker_step_def)
  next
    case (WWork cs)
    then have "in_round (wpc s u)" by simp
    note f = in_round_facts [OF inv u this]
    show ?thesis
      using st WWork f(2,3)
      by (cases cs) (auto simp: worker_step_def run_command_def signal_done_def)
  qed
qed

lemma main_step_local:
  assumes inv: "run_inv k ws s" and st: "main_step s = Some s'"
  shows "wpc s' = wpc s \<and> signals s' = signals s \<and> maxThreads s' = maxThreads s \<and>
    mrem (length ws) (mpc s') < mrem (length ws) (mpc s)"
proof -
  have M: "mpc_ok k ws s (mpc s)"
    using inv by (rule run_inv_main)
  show ?thesis
    using st M
    by (cases "mpc s")
      (auto simp: main_step_def cascade_body_def gate_release_def run_command_def multiple_def
        published_def Let_def split: if_splits list.splits)
qed

lemma run_measure_decreases:
  assumes inv: "run_inv k ws s" and st: "step e s = Some s'"
  shows "run_measure k (length ws) s' < run_measure k (length ws) s"
proof (cases e)
  case EvMain
  then show ?thesis
    using main_step_local [OF inv, of s'] st by (simp add: run_measure_def)
next
  case (EvBoot i)
  then show ?thesis
    using st boot_disabled [OF inv] by simp
next
  case (EvWorker u)
  then have ws: "worker_step u s = Some s'"
    using st by simp
  have u: "u \<in> {1..<maxThreads s}"
    using worker_range [OF inv ws] by simp
  note l = worker_step_local [OF inv ws]
  let ?f = "\<lambda>s t. wrem (length ws) (wpc s t) (t < k \<and> signals s t = 0)"
  have "(\<Sum>t = 1..<maxThreads s. ?f s' t) < (\<Sum>t = 1..<maxThreads s. ?f s t)"
  proof (rule sum_strict_mono_ex1)
    show "\<forall>t\<in>{1..<maxThreads s}. ?f s' t \<le> ?f s t"
    proof
      fix t
      show "?f s' t \<le> ?f s t"
        using l by (cases "t = u") simp_all
    qed
    show "\<exists>a\<in>{1..<maxThreads s}. ?f s' a < ?f s a"
      using u l by blast
  qed simp
  then show ?thesis
    using l by (simp add: run_measure_def)
qed

lemma run_no_deadlock:
  assumes inv: "run_inv k ws s" and busy: "mpc s \<noteq> MIdle"
  shows "\<exists>e s'. step e s = Some s'"
proof (cases "main_step s")
  case (Some s')
  then have "step EvMain s = Some s'" by simp
  then show ?thesis by blast
next
  case None
  have M: "mpc_ok k ws s (mpc s)"
    using inv by (rule run_inv_main)
  have C: "num s = k" "0 < k" "k \<le> maxThreads s" "maxThreads s < 2 ^ 31"
    using run_inv_consts [OF inv] by simp_all
  have w: "mpc s = MWait"
    using None M busy
    by (cases "mpc s") (auto simp: main_step_def split: if_splits list.splits)
  then have pub: "published k ws s"
    using M by simp
  have np: "\<not> ThinBarrier_passable (started s) (int_of_unsigned (u32 (num s + 2 ^ 32 - 1)))"
    using None w by (auto simp: main_step_def split: if_splits)
  have "int_of_unsigned (u32 (num s + 2 ^ 32 - 1)) = int k - 1"
    unfolding C(1) using C by (intro wait_count) auto
  then have lt: "done_count k s < k - 1"
    using np pub by (simp add: ThinBarrier_passable_def published_def)
  have "\<exists>t. 0 < t \<and> t < k \<and> signals s t = 0"
  proof (rule ccontr)
    assume "\<not> ?thesis"
    then have "{t. 0 < t \<and> t < k \<and> signals s t \<noteq> 0} = {1..<k}"
      by auto
    then show False
      using lt by (simp add: done_count_def)
  qed
  then obtain t where t: "0 < t \<and> t < k \<and> signals s t = 0"
    and least: "\<And>p. p < t \<Longrightarrow> \<not> (0 < p \<and> p < k \<and> signals s p = 0)"
    using exists_least_iff [of "\<lambda>t. 0 < t \<and> t < k \<and> signals s t = 0"] by blast
  have W: "worker_inv k ws s t"
    using run_inv_worker [OF inv] t C by simp
  have "\<exists>s'. worker_step t s = Some s'"
  proof (cases "wpc s t")
    case WAcquire
    have pk: "parent t < k" "parent t < t"
      using t parent_less [of t] by simp_all
    have "casc_done s (parent t) = 2"
    proof (cases "parent t = 0")
      case True
      then show ?thesis using w by (simp add: casc_done_def)
    next
      case False
      then have sg: "signals s (parent t) \<noteq> 0"
        using least [OF pk(2)] pk(1) by simp
      have "wpc_ok ws (wpc s (parent t)) (signals s (parent t)) (executed s (parent t))"
        using run_inv_worker [OF inv, of "parent t"] False pk C worker_inv_local by auto
      then have "\<not> in_round (wpc s (parent t))"
        using wpc_ok_signals sg by fastforce
      then have "wcasc (wpc s (parent t)) (signals s (parent t)) = 2"
        using sg by (cases "wpc s (parent t)") simp_all
      then show ?thesis
        using False by (simp add: casc_done_def)
    qed
    then have "released k s t"
      using t slot_cases [of t] by (auto simp: released_def)
    then have "posts s t = 1"
      using worker_inv_posts [OF W] by simp
    moreover have "\<not> acquired s t"
      using t WAcquire by (simp add: acquired_def)
    ultimately have "starts s t = 1"
      using worker_inv_gate [OF W] by simp
    then show ?thesis
      using WAcquire by (simp add: worker_step_def gate_acquire_def)
  next
    case (WWork cs)
    then show ?thesis
      by (cases cs) (simp_all add: worker_step_def)
  qed (use worker_inv_local [OF W] in \<open>simp_all add: worker_step_def\<close>)
  then obtain s' where "step (EvWorker t) s = Some s'"
    by auto
  then show ?thesis by blast
qed

lemma run_can_return:
  assumes "run_inv k ws s"
  shows "\<exists>sched. mpc (exec sched s) = MIdle"
  using assms
proof (induction "run_measure k (length ws) s" arbitrary: s rule: less_induct)
  case less
  show ?case
  proof (cases "mpc s = MIdle")
    case True
    then have "mpc (exec [] s) = MIdle" by simp
    then show ?thesis by blast
  next
    case False
    then obtain e s' where st: "step e s = Some s'"
      using run_no_deadlock [OF less.prems] by blast
    have "run_inv k ws s'"
      using less.prems st by (rule step_preserves)
    moreover have "run_measure k (length ws) s' < run_measure k (length ws) s"
      using less.prems st by (rule run_measure_decreases)
    ultimately obtain sched where "mpc (exec sched s') = MIdle"
      using less.hyps by blast
    then have "mpc (exec (e # sched) s) = MIdle"
      using st by simp
    then show ?thesis by blast
  qed
qed

section \<open>Construction\<close>

lemma ctor_inv_initial:
  "0 < mt \<Longrightarrow> mt < 2 ^ 31 \<Longrightarrow> ctor_inv mt env (getSystemThreadPool mt env)"
  by (auto simp: ctor_inv_def getSystemThreadPool_def ThreadPool_pthread_def static_storage_def
      ThinBarrier_ctor_def handles_ok_def worker_ready_def ready_count_def)

lemma card_running:
  assumes h: "handles_ok ci s"
  shows "card (running_handles s) = next_tid s" "running_handles s \<subseteq> {1..<ci}"
proof -
  let ?g = "\<lambda>j. case threads s j of Running t \<Rightarrow> t | _ \<Rightarrow> 0"
  show sub: "running_handles s \<subseteq> {1..<ci}"
  proof
    fix j
    assume "j \<in> running_handles s"
    then have "threads s j \<noteq> NoThread"
      by (auto simp: running_handles_def)
    then show "j \<in> {1..<ci}"
      using h by (auto simp: handles_ok_def)
  qed
  have inj: "inj_on ?g (running_handles s)"
  proof (rule inj_onI)
    fix j j'
    assume "j \<in> running_handles s" "j' \<in> running_handles s" "?g j = ?g j'"
    then obtain t where "threads s j = Running t" "threads s j' = Running t"
      by (auto simp: running_handles_def)
    then show "j = j'"
      using h unfolding handles_ok_def by blast
  qed
  have img: "?g ` running_handles s = {1..next_tid s}"
  proof (intro set_eqI iffI)
    fix t
    assume "t \<in> ?g ` running_handles s"
    then obtain j where "threads s j = Running t"
      by (auto simp: running_handles_def)
    then have "0 < t \<and> t \<le> next_tid s"
      using h unfolding handles_ok_def by blast
    then show "t \<in> {1..next_tid s}" by simp
  next
    fix t
    assume "t \<in> {1..next_tid s}"
    then have "0 < t \<and> t \<le> next_tid s" by simp
    then obtain j where j: "threads s j = Running t"
      using h unfolding handles_ok_def by blast
    then have "j \<in> running_handles s" "?g j = t"
      by (simp_all add: running_handles_def)
    then show "t \<in> ?g ` running_handles s"
      by blast
  qed
  have "card (running_handles s) = card (?g ` running_handles s)"
    using inj by (simp add: card_image)
  then show "card (running_handles s) = next_tid s"
    unfolding img by simp
qed

lemma next_tid_bound:
  assumes h: "handles_ok ci s" and c: "threads s j = Created"
  shows "next_tid s + 1 < ci"
proof -
  have "threads s j \<noteq> NoThread"
    using c by simp
  then have "0 < j \<and> j < ci"
    using h unfolding handles_ok_def by blast
  then have j: "j \<in> {1..<ci}" "j \<notin> running_handles s"
    using c by (simp_all add: running_handles_def)
  then have "insert j (running_handles s) \<subseteq> {1..<ci}"
    using card_running(2) [OF h] by simp
  then have "card (insert j (running_handles s)) \<le> card {1..<ci}"
    by (intro card_mono) simp_all
  moreover have "finite (running_handles s)"
    using card_running(2) [OF h] finite_subset by blast
  ultimately show ?thesis
    using j card_running(1) [OF h] by simp
qed

lemma next_tid_le:
  assumes h: "handles_ok ci s" and ci: "0 < ci"
  shows "next_tid s \<le> ci - 1"
proof -
  have "card (running_handles s) \<le> card {1..<ci}"
    using card_running(2) [OF h] by (intro card_mono) simp_all
  then show ?thesis
    using card_running(1) [OF h] by simp
qed

lemma all_running:
  assumes h: "handles_ok ci s" and n: "next_tid s = ci - 1" and j: "0 < j" "j < ci"
  shows "\<exists>t. threads s j = Running t"
proof -
  have "card {1..<ci} \<le> card (running_handles s)"
    using card_running(1) [OF h] n by simp
  then have "running_handles s = {1..<ci}"
    using card_running(2) [OF h] by (intro card_seteq) simp_all
  then have "j \<in> running_handles s"
    using j by simp
  then show ?thesis
    by (simp add: running_handles_def)
qed

lemma ctor_inv_consts:
  "ctor_inv mt env s \<Longrightarrow>
   maxThreads s = mt \<and> 0 < mt \<and> mt < 2 ^ 31 \<and> \<not> shutdown s \<and> work s = [] \<and>
   EnvCheck s = env \<and> starting s = 0 \<and> (\<forall>t. starts s t = 0)"
  unfolding ctor_inv_def by blast

lemma ctor_inv_main: "ctor_inv mt env s \<Longrightarrow> cpc_ok mt s (mpc s)"
  unfolding ctor_inv_def by blast

lemma ctor_inv_handles: "ctor_inv mt env s \<Longrightarrow> handles_ok (spawn_index mt (mpc s)) s"
  unfolding ctor_inv_def by blast

lemma ctor_inv_worker: "ctor_inv mt env s \<Longrightarrow> worker_ready env s t"
  unfolding ctor_inv_def by blast

lemma ctor_inv_started:
  "ctor_inv mt env s \<Longrightarrow> started s = int (signals s 0) + int (ready_count s)"
  unfolding ctor_inv_def by blast

lemma ctor_inv_zero:
  "ctor_inv mt env s \<Longrightarrow> mpc s \<noteq> MCtorInit \<Longrightarrow>
   signals s 0 = 1 \<and> inits s 0 = initThread_actions env 0"
  unfolding ctor_inv_def by blast

lemma ctor_invI:
  assumes "maxThreads s = mt \<and> 0 < mt \<and> mt < 2 ^ 31 \<and> \<not> shutdown s \<and> work s = [] \<and>
      EnvCheck s = env \<and> starting s = 0 \<and> (\<forall>t. starts s t = 0)"
    and "cpc_ok mt s (mpc s)" and "handles_ok (spawn_index mt (mpc s)) s"
    and "\<And>t. worker_ready env s t"
    and "mpc s \<noteq> MCtorInit \<Longrightarrow> signals s 0 = 1 \<and> inits s 0 = initThread_actions env 0"
    and "started s = int (signals s 0) + int (ready_count s)"
  shows "ctor_inv mt env s"
  using assms unfolding ctor_inv_def by blast

lemma spawn_index_le: "cpc_ok mt s m \<Longrightarrow> 0 < mt \<Longrightarrow> 0 < spawn_index mt m \<and> spawn_index mt m \<le> mt"
  by (cases m) simp_all

lemma ready_count_le: "ready_count s \<le> next_tid s"
proof -
  have "card {t. 0 < t \<and> t \<le> next_tid s \<and> wpc s t \<noteq> WStart} \<le> card {1..next_tid s}"
    by (intro card_mono) auto
  then show ?thesis
    by (simp add: ready_count_def)
qed

lemma ready_count_lt:
  assumes "0 < u" "u \<le> next_tid s" "wpc s u = WStart"
  shows "ready_count s < next_tid s"
proof -
  have "{t. 0 < t \<and> t \<le> next_tid s \<and> wpc s t \<noteq> WStart} \<subseteq> {1..next_tid s} - {u}"
    using assms by auto
  then have "ready_count s \<le> card ({1..next_tid s} - {u})"
    unfolding ready_count_def by (intro card_mono) auto
  also have "\<dots> < next_tid s"
    using assms by (simp add: card_Diff_singleton_if)
  finally show ?thesis .
qed

lemma ready_all:
  assumes "ready_count s = next_tid s" "0 < t" "t \<le> next_tid s"
  shows "wpc s t \<noteq> WStart"
  using ready_count_lt [OF assms(2,3)] assms(1) by auto

lemma boot_range:
  assumes inv: "ctor_inv mt env s" and c: "threads s i = Created"
  shows "next_tid s + 1 < mt" "mpc s \<noteq> MCtorInit" "mpc s \<noteq> MCtorAlloc" "mpc s \<noteq> MIdle"
proof -
  note h = ctor_inv_handles [OF inv]
  note M = ctor_inv_main [OF inv]
  have C: "0 < mt" using ctor_inv_consts [OF inv] by simp
  have lt: "next_tid s + 1 < spawn_index mt (mpc s)"
    using h c by (rule next_tid_bound)
  then show "next_tid s + 1 < mt"
    using spawn_index_le [OF M C] by simp
  show "mpc s \<noteq> MCtorInit" "mpc s \<noteq> MCtorAlloc"
    using lt by auto
  show "mpc s \<noteq> MIdle"
    using lt M by auto
qed

lemma ctor_boot_preserves:
  assumes inv: "ctor_inv mt env s" and st: "boot_step i s = Some s'"
  shows "ctor_inv mt env s'"
proof -
  have c: "threads s i = Created"
    using st by (auto simp: boot_step_def split: handle.splits)
  note b = boot_range [OF inv c]
  note C = ctor_inv_consts [OF inv]
  note h = ctor_inv_handles [OF inv]
  let ?n = "next_tid s + 1"
  have "u32 ?n = ?n"
    using b(1) C by (intro u32_id) simp
  then have s': "s' = s\<lparr>next_tid := ?n, threads := (threads s)(i := Running ?n),
      wpc := (wpc s)(?n := WStart)\<rparr>"
    using st c by (simp add: boot_step_def)
  have old: "wpc s ?n = WNone \<and> signals s ?n = 0 \<and> inits s ?n = []"
    using ctor_inv_worker [OF inv, of ?n] by (simp add: worker_ready_def)
  have hne: "(threads s j \<noteq> NoThread) = (0 < j \<and> j < spawn_index mt (mpc s))" for j
    using h unfolding handles_ok_def by blast
  have hle: "threads s j = Running t \<Longrightarrow> 0 < t \<and> t \<le> next_tid s" for j t
    using h unfolding handles_ok_def by blast
  have inj: "threads s x = Running t \<Longrightarrow> threads s y = Running t \<Longrightarrow> x = y" for x y t
    using h unfolding handles_ok_def by blast
  have rc: "ready_count s' = ready_count s"
  proof -
    have "{t. 0 < t \<and> t \<le> next_tid s' \<and> wpc s' t \<noteq> WStart} =
        {t. 0 < t \<and> t \<le> next_tid s \<and> wpc s t \<noteq> WStart}"
      by (auto simp: s')
    then show ?thesis by (simp add: ready_count_def)
  qed
  show ?thesis
  proof (rule ctor_invI)
    show "cpc_ok mt s' (mpc s')"
      using ctor_inv_main [OF inv] b by (cases "mpc s") (simp_all add: s')
    show "handles_ok (spawn_index mt (mpc s')) s'"
    proof -
      have 1: "(threads s' j \<noteq> NoThread) = (0 < j \<and> j < spawn_index mt (mpc s'))" for j
        using hne [of j] hne [of i] c by (cases "j = i") (auto simp: s')
      have 2: "0 < t \<and> t \<le> next_tid s'" if "threads s' j = Running t" for j t
        using that hle [of j t] by (cases "j = i") (auto simp: s')
      have 3: "\<exists>j. threads s' j = Running t" if t: "0 < t \<and> t \<le> next_tid s'" for t
      proof (cases "t = ?n")
        case True
        then have "threads s' i = Running t" by (simp add: s')
        then show ?thesis by blast
      next
        case False
        then have "0 < t \<and> t \<le> next_tid s" using t by (simp add: s')
        then obtain j where j: "threads s j = Running t"
          using h unfolding handles_ok_def by blast
        then have "j \<noteq> i" using c by auto
        then have "threads s' j = Running t" using j by (simp add: s')
        then show ?thesis by blast
      qed
      have 4: "j = j'" if a: "threads s' j = Running t \<and> threads s' j' = Running t" for j j' t
      proof (cases "j = i")
        case True
        then have t: "t = ?n" using a by (simp add: s')
        show ?thesis
        proof (rule ccontr)
          assume "j \<noteq> j'"
          then have "threads s j' = Running t" using a True by (simp add: s')
          then show False using hle t by fastforce
        qed
      next
        case False
        then have j: "threads s j = Running t" using a by (simp add: s')
        show ?thesis
        proof (cases "j' = i")
          case True
          then have "t = ?n" using a by (simp add: s')
          then show ?thesis using hle [OF j] by simp
        next
          case False
          then have "threads s j' = Running t" using a by (simp add: s')
          then show ?thesis using j inj by blast
        qed
      qed
      show ?thesis
        unfolding handles_ok_def using 1 2 3 4 by blast
    qed
    show "worker_ready env s' t" for t
      using ctor_inv_worker [OF inv, of t] old
      by (cases "t = ?n") (auto simp: worker_ready_def s')
    show "started s' = int (signals s' 0) + int (ready_count s')"
      using ctor_inv_started [OF inv] unfolding rc by (simp add: s')
    show "signals s' 0 = 1 \<and> inits s' 0 = initThread_actions env 0" if "mpc s' \<noteq> MCtorInit"
      using ctor_inv_zero [OF inv] that by (simp add: s')
  qed (use C in \<open>simp add: s'\<close>)
qed

lemma handles_ok_frame:
  "handles_ok ci s \<Longrightarrow> threads s' = threads s \<Longrightarrow> next_tid s' = next_tid s \<Longrightarrow> handles_ok ci s'"
  by (simp add: handles_ok_def)

lemma ready_count_start:
  assumes "wpc s u = WStart" "0 < u" "u \<le> next_tid s"
  shows "card {t. 0 < t \<and> t \<le> next_tid s \<and> ((wpc s)(u := WLoop)) t \<noteq> WStart} = Suc (ready_count s)"
proof -
  have "{t. 0 < t \<and> t \<le> next_tid s \<and> ((wpc s)(u := WLoop)) t \<noteq> WStart} =
      insert u {t. 0 < t \<and> t \<le> next_tid s \<and> wpc s t \<noteq> WStart}"
    using assms by auto
  moreover have "u \<notin> {t. 0 < t \<and> t \<le> next_tid s \<and> wpc s t \<noteq> WStart}"
    using assms by simp
  moreover have "finite {t. 0 < t \<and> t \<le> next_tid s \<and> wpc s t \<noteq> WStart}"
    by simp
  ultimately show ?thesis
    by (simp add: ready_count_def)
qed

lemma int_of_unsigned_id: "n < 2 ^ 31 \<Longrightarrow> int_of_unsigned n = int n"
  by (simp add: int_of_unsigned_def u32_def)

lemma ctor_worker_preserves:
  assumes inv: "ctor_inv mt env s" and st: "worker_step u s = Some s'"
  shows "ctor_inv mt env s'"
proof -
  note C = ctor_inv_consts [OF inv]
  note M = ctor_inv_main [OF inv]
  note h = ctor_inv_handles [OF inv]
  have R: "worker_ready env s u"
    using inv by (rule ctor_inv_worker)
  have u: "0 < u \<and> u \<le> next_tid s"
    using R st by (cases "0 < u \<and> u \<le> next_tid s") (auto simp: worker_ready_def worker_step_def)
  have nle: "next_tid s < mt"
    using next_tid_le [OF h] spawn_index_le [OF M] C by fastforce
  have pcs: "mpc s \<noteq> MCtorInit"
    using u M by (cases "mpc s") auto
  consider (start) "wpc s u = WStart" | (loop) "wpc s u = WLoop" | (acq) "wpc s u = WAcquire"
    using R u by (auto simp: worker_ready_def)
  then show ?thesis
  proof cases
    case start
    then have old: "signals s u = 0" "inits s u = []"
      using R u by (auto simp: worker_ready_def)
    have s': "s' = s\<lparr>inits := (inits s)(u := initThread_actions env u),
        started := ThinBarrier_release (started s), signals := (signals s)(u := Suc 0),
        wpc := (wpc s)(u := WLoop)\<rparr>"
      using st start old C by (simp add: worker_step_def initThread_def)
    have rc: "ready_count s' = Suc (ready_count s)"
      using ready_count_start [OF start] u by (simp add: ready_count_def s')
    have "ready_count s < next_tid s"
      using u start by (intro ready_count_lt) auto
    then have rel: "ThinBarrier_release (started s) = started s + 1"
      using ctor_inv_started [OF inv] ctor_inv_zero [OF inv pcs] nle C
      by (simp add: ThinBarrier_release_def s32_id)
    show ?thesis
    proof (rule ctor_invI)
      show "cpc_ok mt s' (mpc s')"
      proof (cases "mpc s")
        case MIdle
        then have "ready_count s = next_tid s" using M by simp
        then show ?thesis using ready_all u start by blast
      qed (use M pcs in \<open>simp_all add: s'\<close>)
      show "handles_ok (spawn_index mt (mpc s')) s'"
        using h by (simp add: s' handles_ok_def)
      show "worker_ready env s' t" for t
        using ctor_inv_worker [OF inv, of t] u
        by (cases "t = u") (auto simp: worker_ready_def s')
      have "started s' = started s + 1"
        using rel by (simp add: s')
      then show "started s' = int (signals s' 0) + int (ready_count s')"
        unfolding rc using ctor_inv_started [OF inv] u by (simp add: s')
      show "signals s' 0 = 1 \<and> inits s' 0 = initThread_actions env 0" if "mpc s' \<noteq> MCtorInit"
        using ctor_inv_zero [OF inv] that u by (simp add: s')
    qed (use C in \<open>simp add: s'\<close>)
  next
    case loop
    then have s': "s' = s\<lparr>wpc := (wpc s)(u := WAcquire)\<rparr>"
      using st C by (simp add: worker_step_def)
    have rc: "ready_count s' = ready_count s"
    proof -
      have "{t. 0 < t \<and> t \<le> next_tid s' \<and> wpc s' t \<noteq> WStart} =
          {t. 0 < t \<and> t \<le> next_tid s \<and> wpc s t \<noteq> WStart}"
        using loop by (auto simp: s')
      then show ?thesis by (simp add: ready_count_def)
    qed
    show ?thesis
    proof (rule ctor_invI)
      show "cpc_ok mt s' (mpc s')"
        using M rc by (cases "mpc s") (simp_all add: s')
      show "handles_ok (spawn_index mt (mpc s')) s'"
        using h by (simp add: s' handles_ok_def)
      show "worker_ready env s' t" for t
        using ctor_inv_worker [OF inv, of t] u loop
        by (cases "t = u") (auto simp: worker_ready_def s')
      show "started s' = int (signals s' 0) + int (ready_count s')"
        using ctor_inv_started [OF inv] unfolding rc by (simp add: s')
      show "signals s' 0 = 1 \<and> inits s' 0 = initThread_actions env 0" if "mpc s' \<noteq> MCtorInit"
        using ctor_inv_zero [OF inv] that by (simp add: s')
    qed (use C in \<open>simp add: s'\<close>)
  next
    case acq
    then show ?thesis
      using st C by (simp add: worker_step_def gate_acquire_def)
  qed
qed

lemma ready_count_cong:
  "next_tid s' = next_tid s \<Longrightarrow> wpc s' = wpc s \<Longrightarrow> ready_count s' = ready_count s"
  by (simp add: ready_count_def)

lemma worker_ready_cong:
  "worker_ready env s t \<Longrightarrow> next_tid s' = next_tid s \<Longrightarrow> wpc s' = wpc s \<Longrightarrow>
   (0 < t \<Longrightarrow> signals s' t = signals s t \<and> inits s' t = inits s t) \<Longrightarrow> worker_ready env s' t"
  by (auto simp: worker_ready_def)

lemma ctor_main_preserves:
  assumes inv: "ctor_inv mt env s" and st: "main_step s = Some s'"
  shows "ctor_inv mt env s'"
proof -
  note C = ctor_inv_consts [OF inv]
  note M = ctor_inv_main [OF inv]
  note h = ctor_inv_handles [OF inv]
  note S = ctor_inv_started [OF inv]
  show ?thesis
  proof (cases "mpc s")
    case MCtorInit
    then have m: "signals s 0 = 0" "inits s 0 = []" "next_tid s = 0"
      using M by simp_all
    have s': "s' = s\<lparr>inits := (inits s)(0 := initThread_actions env 0),
        started := ThinBarrier_release (started s), signals := (signals s)(0 := Suc 0),
        mpc := MCtorAlloc\<rparr>"
      using st MCtorInit m C by (simp add: main_step_def initThread_def)
    have rc: "ready_count s' = ready_count s"
      by (rule ready_count_cong) (simp_all add: s')
    have "{t. 0 < t \<and> t \<le> next_tid s \<and> wpc s t \<noteq> WStart} = {}"
      using m by auto
    then have r0: "ready_count s = 0"
      by (simp add: ready_count_def)
    have rel: "ThinBarrier_release (started s) = 1"
      using S m r0 by (simp add: ThinBarrier_release_def s32_def)
    show ?thesis
    proof (rule ctor_invI)
      show "cpc_ok mt s' (mpc s')"
        using m by (simp add: s')
      show "handles_ok (spawn_index mt (mpc s')) s'"
        using h MCtorInit by (simp add: s' handles_ok_def)
      show "worker_ready env s' t" for t
        using ctor_inv_worker [OF inv, of t] by (rule worker_ready_cong) (simp_all add: s')
      show "started s' = int (signals s' 0) + int (ready_count s')"
        unfolding rc r0 using rel by (simp add: s')
      show "signals s' 0 = 1 \<and> inits s' 0 = initThread_actions env 0"
        by (simp add: s')
    qed (use C in \<open>simp add: s'\<close>)
  next
    case MCtorAlloc
    then have m: "next_tid s = 0"
      using M by simp
    have s': "s' = s\<lparr>starts := (\<lambda>_. 0), threads := (\<lambda>_. NoThread), mpc := MCtorSpawn 1\<rparr>"
      using st MCtorAlloc by (simp add: main_step_def)
    have rc: "ready_count s' = ready_count s"
      by (rule ready_count_cong) (simp_all add: s')
    show ?thesis
    proof (rule ctor_invI)
      show "cpc_ok mt s' (mpc s')"
        using C by (simp add: s')
      show "handles_ok (spawn_index mt (mpc s')) s'"
        using m by (auto simp: s' handles_ok_def)
      show "worker_ready env s' t" for t
        using ctor_inv_worker [OF inv, of t] by (rule worker_ready_cong) (simp_all add: s')
      show "started s' = int (signals s' 0) + int (ready_count s')"
        unfolding rc using S by (simp add: s')
      show "signals s' 0 = 1 \<and> inits s' 0 = initThread_actions env 0"
        using ctor_inv_zero [OF inv] MCtorAlloc by (simp add: s')
    qed (use C in \<open>simp add: s'\<close>)
  next
    case (MCtorSpawn i)
    then have i: "0 < i" "i \<le> mt"
      using M by simp_all
    have hi: "handles_ok i s"
      using h MCtorSpawn by simp
    show ?thesis
    proof (cases "i < mt")
      case True
      then have s': "s' = s\<lparr>threads := (threads s)(i := Created), mpc := MCtorSpawn (i + 1)\<rparr>"
        using st MCtorSpawn C by (simp add: main_step_def)
      have rc: "ready_count s' = ready_count s"
        by (rule ready_count_cong) (simp_all add: s')
      have old: "threads s i = NoThread"
        using hi unfolding handles_ok_def by auto
      show ?thesis
      proof (rule ctor_invI)
        show "cpc_ok mt s' (mpc s')"
          using True by (simp add: s')
        show "handles_ok (spawn_index mt (mpc s')) s'"
        proof -
          have 1: "(threads s' j \<noteq> NoThread) = (0 < j \<and> j < i + 1)" for j
            using hi i unfolding handles_ok_def by (cases "j = i") (auto simp: s')
          have 2: "0 < t \<and> t \<le> next_tid s'" if "threads s' j = Running t" for j t
            using hi that unfolding handles_ok_def by (cases "j = i") (auto simp: s')
          have 3: "\<exists>j. threads s' j = Running t" if t: "0 < t \<and> t \<le> next_tid s'" for t
          proof -
            obtain j where j: "threads s j = Running t"
              using hi t unfolding handles_ok_def by (auto simp: s')
            then have "j \<noteq> i" using old by auto
            then have "threads s' j = Running t" using j by (simp add: s')
            then show ?thesis by blast
          qed
          have 4: "j = j'" if "threads s' j = Running t \<and> threads s' j' = Running t" for j j' t
          proof -
            have "j \<noteq> i" "j' \<noteq> i" using that by (auto simp: s')
            then have "threads s j = Running t \<and> threads s j' = Running t"
              using that by (simp add: s')
            then show ?thesis
              using hi unfolding handles_ok_def by blast
          qed
          show ?thesis
            unfolding handles_ok_def using 1 2 3 4 by (simp add: s')
        qed
        show "worker_ready env s' t" for t
          using ctor_inv_worker [OF inv, of t] by (rule worker_ready_cong) (simp_all add: s')
        show "started s' = int (signals s' 0) + int (ready_count s')"
          unfolding rc using S by (simp add: s')
        show "signals s' 0 = 1 \<and> inits s' 0 = initThread_actions env 0"
          using ctor_inv_zero [OF inv] MCtorSpawn by (simp add: s')
      qed (use C in \<open>simp add: s'\<close>)
    next
      case False
      then have s': "s' = s\<lparr>mpc := MCtorWait\<rparr>" and im: "i = mt"
        using st MCtorSpawn C i by (simp_all add: main_step_def)
      have rc: "ready_count s' = ready_count s"
        by (rule ready_count_cong) (simp_all add: s')
      show ?thesis
      proof (rule ctor_invI)
        show "cpc_ok mt s' (mpc s')"
          by (simp add: s')
        show "handles_ok (spawn_index mt (mpc s')) s'"
          using hi im by (simp add: s' handles_ok_def)
        show "worker_ready env s' t" for t
          using ctor_inv_worker [OF inv, of t] by (rule worker_ready_cong) (simp_all add: s')
        show "started s' = int (signals s' 0) + int (ready_count s')"
          unfolding rc using S by (simp add: s')
        show "signals s' 0 = 1 \<and> inits s' 0 = initThread_actions env 0"
          using ctor_inv_zero [OF inv] MCtorSpawn by (simp add: s')
      qed (use C in \<open>simp add: s'\<close>)
    qed
  next
    case MCtorWait
    then have pass: "ThinBarrier_passable (started s) (int_of_unsigned (maxThreads s))"
      and s': "s' = s\<lparr>mpc := MIdle\<rparr>"
      using st by (auto simp: main_step_def split: if_splits)
    have rc: "ready_count s' = ready_count s"
      by (rule ready_count_cong) (simp_all add: s')
    have hm: "handles_ok mt s"
      using h MCtorWait by simp
    have "int mt \<le> started s"
      using pass C by (simp add: ThinBarrier_passable_def int_of_unsigned_id)
    then have "mt \<le> 1 + ready_count s"
      using S ctor_inv_zero [OF inv] MCtorWait by simp
    moreover have "ready_count s \<le> next_tid s"
      by (rule ready_count_le)
    moreover have "next_tid s \<le> mt - 1"
      using hm C by (intro next_tid_le) simp_all
    ultimately have all: "next_tid s = mt - 1" "ready_count s = mt - 1"
      by simp_all
    show ?thesis
    proof (rule ctor_invI)
      show "cpc_ok mt s' (mpc s')"
        using all rc by (simp add: s')
      show "handles_ok (spawn_index mt (mpc s')) s'"
        using hm by (simp add: s' handles_ok_def)
      show "worker_ready env s' t" for t
        using ctor_inv_worker [OF inv, of t] by (rule worker_ready_cong) (simp_all add: s')
      show "started s' = int (signals s' 0) + int (ready_count s')"
        unfolding rc using S by (simp add: s')
      show "signals s' 0 = 1 \<and> inits s' 0 = initThread_actions env 0"
        using ctor_inv_zero [OF inv] MCtorWait by (simp add: s')
    qed (use C in \<open>simp add: s'\<close>)
  next
    case MIdle
    then show ?thesis using st by (simp add: main_step_def)
  qed (use M in simp_all)
qed

lemma ctor_step_preserves: "ctor_inv mt env s \<Longrightarrow> step e s = Some s' \<Longrightarrow> ctor_inv mt env s'"
  by (cases e) (auto intro: ctor_main_preserves ctor_worker_preserves ctor_boot_preserves)

lemma ctor_exec_preserves: "ctor_inv mt env s \<Longrightarrow> ctor_inv mt env (exec sched s)"
proof (induction sched arbitrary: s)
  case Nil
  then show ?case by simp
next
  case (Cons e sched)
  show ?case
  proof (cases "step e s")
    case None
    then show ?thesis using Cons by simp
  next
    case (Some s')
    then have "ctor_inv mt env s'"
      using Cons.prems ctor_step_preserves by blast
    then show ?thesis
      using Cons.IH Some by simp
  qed
qed

lemma ctor_returned:
  assumes inv: "ctor_inv mt env s" and idle: "mpc s = MIdle"
  shows "quiescent s"
    and "signals s t = (if t < mt then 1 else 0)"
    and "inits s t = (if t < mt then initThread_actions env t else [])"
    and "started s = int mt"
proof -
  note C = ctor_inv_consts [OF inv]
  have M: "next_tid s = mt - 1" "ready_count s = mt - 1"
    using ctor_inv_main [OF inv] idle by simp_all
  have h: "handles_ok mt s"
    using ctor_inv_handles [OF inv] idle by simp
  note z = ctor_inv_zero [OF inv]
  have rdy: "(wpc s t = WLoop \<or> wpc s t = WAcquire) \<and> signals s t = 1 \<and>
      inits s t = initThread_actions env t" if "0 < t" "t < mt" for t
  proof -
    have "0 < t \<and> t \<le> next_tid s" using that M by simp
    moreover from this have "wpc s t \<noteq> WStart"
      using ready_all M by metis
    ultimately show ?thesis
      using ctor_inv_worker [OF inv, of t] by (auto simp: worker_ready_def)
  qed
  have out: "wpc s t = WNone \<and> (0 < t \<longrightarrow> signals s t = 0 \<and> inits s t = [])"
    if "\<not> (0 < t \<and> t < mt)" for t
  proof -
    have "\<not> (0 < t \<and> t \<le> next_tid s)" using that M C by auto
    then show ?thesis
      using ctor_inv_worker [OF inv, of t] by (auto simp: worker_ready_def)
  qed
  show "signals s t = (if t < mt then 1 else 0)"
    using rdy [of t] out [of t] z idle C by (cases "t = 0") auto
  show "inits s t = (if t < mt then initThread_actions env t else [])"
    using rdy [of t] out [of t] z idle C by (cases "t = 0") auto
  show "started s = int mt"
    using ctor_inv_started [OF inv] z idle M C by simp
  have run: "\<exists>t. 0 < t \<and> t < mt \<and> threads s j = Running t" if "0 < j" "j < mt" for j
  proof -
    have "\<exists>t. threads s j = Running t"
      using h M(1) that by (rule all_running)
    then obtain t where t: "threads s j = Running t"
      by blast
    then have "0 < t \<and> t \<le> next_tid s"
      using h unfolding handles_ok_def by blast
    then show ?thesis using t M C by auto
  qed
  have no: "threads s j = NoThread" if "\<not> (0 < j \<and> j < mt)" for j
    using h that unfolding handles_ok_def by blast
  have surj: "\<exists>j. 0 < j \<and> j < mt \<and> threads s j = Running t" if "0 < t" "t < mt" for t
  proof -
    have "0 < t \<and> t \<le> next_tid s" using that M by simp
    then obtain j where j: "threads s j = Running t"
      using h unfolding handles_ok_def by blast
    then have "threads s j \<noteq> NoThread" by simp
    then have "0 < j \<and> j < mt"
      using h unfolding handles_ok_def by blast
    then show ?thesis using j by blast
  qed
  show "quiescent s"
    unfolding quiescent_def using C idle rdy out run no surj by auto
qed

text \<open>
  The barrier counts the releases: during construction the counter is the number of
  \<^verbatim>\<open>started.release()\<close> calls made so far, at most one by each thread.
\<close>

lemma ctor_inv_count:
  assumes inv: "ctor_inv mt env s"
  shows "started s = int (\<Sum>t<mt. signals s t)" and "mt \<le> t \<Longrightarrow> signals s t = 0"
    and "signals s t \<le> 1"
proof -
  have mt: "0 < mt"
    using ctor_inv_consts [OF inv] by simp
  note si = spawn_index_le [OF ctor_inv_main [OF inv] mt]
  have nt: "next_tid s \<le> mt - 1"
    using next_tid_le [OF ctor_inv_handles [OF inv]] si by linarith
  have sig: "signals s t = (if t \<le> next_tid s \<and> wpc s t \<noteq> WStart then 1 else 0)" if "0 < t" for t
    using ctor_inv_worker [OF inv, of t] that
    by (auto simp: worker_ready_def split: if_splits)
  show "signals s t = 0" if "mt \<le> t" for t
  proof -
    have "\<not> t \<le> next_tid s" and "0 < t"
      using that nt mt by linarith+
    then show ?thesis
      using sig [of t] by simp
  qed
  show "signals s t \<le> 1"
  proof (cases "t = 0")
    case True
    show ?thesis
    proof (cases "mpc s = MCtorInit")
      case True
      then have "signals s 0 = 0"
        using ctor_inv_main [OF inv] by simp
      then show ?thesis
        using \<open>t = 0\<close> by simp
    next
      case False
      then show ?thesis
        using ctor_inv_zero [OF inv] \<open>t = 0\<close> by simp
    qed
  next
    case False
    then show ?thesis
      using sig [of t] by simp
  qed
  have "{..<mt} = insert 0 {1..<mt}"
    using mt by auto
  then have "(\<Sum>t<mt. signals s t) = signals s 0 + (\<Sum>t = 1..<mt. signals s t)"
    by simp
  also have "(\<Sum>t = 1..<mt. signals s t) =
      (\<Sum>t = 1..<mt. if t \<le> next_tid s \<and> wpc s t \<noteq> WStart then 1 else 0)"
    by (intro sum.cong refl) (simp add: sig)
  also have "\<dots> = card {t \<in> {1..<mt}. t \<le> next_tid s \<and> wpc s t \<noteq> WStart}"
    by (simp add: sum.If_cases Int_def)
  also have "{t \<in> {1..<mt}. t \<le> next_tid s \<and> wpc s t \<noteq> WStart} =
      {t. 0 < t \<and> t \<le> next_tid s \<and> wpc s t \<noteq> WStart}"
    using nt mt by auto
  finally have "(\<Sum>t<mt. signals s t) = signals s 0 + ready_count s"
    by (simp add: ready_count_def)
  then show "started s = int (\<Sum>t<mt. signals s t)"
    using ctor_inv_started [OF inv] by simp
qed

subsection \<open>The constructor returns\<close>

lemma sum_upd:
  fixes f :: "'b \<Rightarrow> nat"
  assumes "finite A" "a \<in> A"
  shows "(\<Sum>x\<in>A. f ((g(a := v)) x)) + f (g a) = (\<Sum>x\<in>A. f (g x)) + f v"
proof -
  have "(\<Sum>x\<in>A. f ((g(a := v)) x)) = f v + (\<Sum>x\<in>A - {a}. f ((g(a := v)) x))"
    using assms by (simp add: sum.remove)
  moreover have "(\<Sum>x\<in>A - {a}. f ((g(a := v)) x)) = (\<Sum>x\<in>A - {a}. f (g x))"
    by (rule sum.cong) simp_all
  moreover have "(\<Sum>x\<in>A. f (g x)) = f (g a) + (\<Sum>x\<in>A - {a}. f (g x))"
    using assms by (simp add: sum.remove)
  ultimately show ?thesis by simp
qed

lemma ctor_main_local:
  assumes inv: "ctor_inv mt env s" and st: "main_step s = Some s'"
  shows "wpc s' = wpc s \<and> (\<forall>j. hrem (threads s' j) = hrem (threads s j)) \<and>
    cmrem mt (mpc s') < cmrem mt (mpc s)"
proof -
  note C = ctor_inv_consts [OF inv]
  note M = ctor_inv_main [OF inv]
  note h = ctor_inv_handles [OF inv]
  show ?thesis
  proof (cases "mpc s")
    case MCtorInit
    then show ?thesis
      using st by (auto simp: main_step_def initThread_def)
  next
    case MCtorAlloc
    then have "threads s j = NoThread" for j
      using h unfolding handles_ok_def by auto
    then show ?thesis
      using st MCtorAlloc by (auto simp: main_step_def)
  next
    case (MCtorSpawn i)
    then have "threads s i = NoThread"
      using h unfolding handles_ok_def by auto
    then show ?thesis
      using st MCtorSpawn M C by (auto simp: main_step_def split: if_splits)
  next
    case MCtorWait
    then show ?thesis
      using st by (auto simp: main_step_def split: if_splits)
  next
    case MIdle
    then show ?thesis using st by (simp add: main_step_def)
  qed (use M in simp_all)
qed

lemma ctor_worker_local:
  assumes inv: "ctor_inv mt env s" and st: "worker_step u s = Some s'"
  shows "mpc s' = mpc s \<and> threads s' = threads s \<and> 0 < u \<and> u < mt \<and>
    (\<forall>t. t \<noteq> u \<longrightarrow> wpc s' t = wpc s t) \<and> cwrem (wpc s' u) < cwrem (wpc s u)"
proof -
  note C = ctor_inv_consts [OF inv]
  note M = ctor_inv_main [OF inv]
  note h = ctor_inv_handles [OF inv]
  have R: "worker_ready env s u"
    using inv by (rule ctor_inv_worker)
  have u: "0 < u \<and> u \<le> next_tid s"
    using R st by (cases "0 < u \<and> u \<le> next_tid s") (auto simp: worker_ready_def worker_step_def)
  have nle: "next_tid s < mt"
    using next_tid_le [OF h] spawn_index_le [OF M] C by fastforce
  consider (start) "wpc s u = WStart" | (loop) "wpc s u = WLoop" | (acq) "wpc s u = WAcquire"
    using R u by (auto simp: worker_ready_def)
  then show ?thesis
  proof cases
    case start
    then show ?thesis
      using st u nle by (auto simp: worker_step_def initThread_def)
  next
    case loop
    then show ?thesis
      using st u nle C by (auto simp: worker_step_def)
  next
    case acq
    then show ?thesis
      using st C by (simp add: worker_step_def gate_acquire_def)
  qed
qed

lemma ctor_measure_decreases:
  assumes inv: "ctor_inv mt env s" and st: "step e s = Some s'"
  shows "ctor_measure mt s' < ctor_measure mt s"
proof (cases e)
  case EvMain
  then show ?thesis
    using ctor_main_local [OF inv, of s'] st by (simp add: ctor_measure_def)
next
  case (EvBoot i)
  then have bs: "boot_step i s = Some s'"
    using st by simp
  then have c: "threads s i = Created"
    by (auto simp: boot_step_def split: handle.splits)
  note b = boot_range [OF inv c]
  note C = ctor_inv_consts [OF inv]
  note h = ctor_inv_handles [OF inv]
  let ?n = "next_tid s + 1"
  have "u32 ?n = ?n"
    using b(1) C by (intro u32_id) simp
  then have s': "s' = s\<lparr>next_tid := ?n, threads := (threads s)(i := Running ?n),
      wpc := (wpc s)(?n := WStart)\<rparr>"
    using bs c by (simp add: boot_step_def)
  have "threads s i \<noteq> NoThread"
    using c by simp
  then have "0 < i \<and> i < spawn_index mt (mpc s)"
    using h unfolding handles_ok_def by blast
  then have i: "i \<in> {1..<mt}"
    using spawn_index_le [OF ctor_inv_main [OF inv]] C by auto
  have n: "?n \<in> {1..<mt}"
    using b(1) by simp
  have old: "wpc s ?n = WNone"
    using ctor_inv_worker [OF inv, of ?n] by (simp add: worker_ready_def)
  have "(\<Sum>j = 1..<mt. hrem (((threads s)(i := Running ?n)) j)) + hrem (threads s i) =
      (\<Sum>j = 1..<mt. hrem (threads s j)) + hrem (Running ?n)"
    using i by (intro sum_upd) simp_all
  then have hs: "(\<Sum>j = 1..<mt. hrem (threads s' j)) + 3 = (\<Sum>j = 1..<mt. hrem (threads s j))"
    using c by (simp add: s')
  have "(\<Sum>t = 1..<mt. cwrem (((wpc s)(?n := WStart)) t)) + cwrem (wpc s ?n) =
      (\<Sum>t = 1..<mt. cwrem (wpc s t)) + cwrem (WStart :: 'a wpc)"
    using n by (intro sum_upd) simp_all
  then have wsum: "(\<Sum>t = 1..<mt. cwrem (wpc s' t)) = (\<Sum>t = 1..<mt. cwrem (wpc s t)) + 2"
    using old by (simp add: s')
  have "mpc s' = mpc s"
    by (simp add: s')
  then show ?thesis
    using hs wsum by (simp add: ctor_measure_def)
next
  case (EvWorker u)
  then have ws: "worker_step u s = Some s'"
    using st by simp
  note l = ctor_worker_local [OF inv ws]
  have "(\<Sum>t = 1..<mt. cwrem (wpc s' t)) < (\<Sum>t = 1..<mt. cwrem (wpc s t))"
  proof (rule sum_strict_mono_ex1)
    show "\<forall>t\<in>{1..<mt}. cwrem (wpc s' t) \<le> cwrem (wpc s t)"
    proof
      fix t
      show "cwrem (wpc s' t) \<le> cwrem (wpc s t)"
        using l by (cases "t = u") simp_all
    qed
    have "u \<in> {1..<mt}" using l by simp
    then show "\<exists>a\<in>{1..<mt}. cwrem (wpc s' a) < cwrem (wpc s a)"
      using l by blast
  qed simp
  then show ?thesis
    using l by (simp add: ctor_measure_def)
qed

lemma ctor_no_deadlock:
  assumes inv: "ctor_inv mt env s" and busy: "mpc s \<noteq> MIdle"
  shows "\<exists>e s'. step e s = Some s'"
proof (cases "main_step s")
  case (Some s')
  then have "step EvMain s = Some s'" by simp
  then show ?thesis by blast
next
  case None
  note C = ctor_inv_consts [OF inv]
  note M = ctor_inv_main [OF inv]
  have w: "mpc s = MCtorWait"
    using None M busy
    by (cases "mpc s") (auto simp: main_step_def split: if_splits)
  have h: "handles_ok mt s"
    using ctor_inv_handles [OF inv] w by simp
  have "\<not> ThinBarrier_passable (started s) (int_of_unsigned (maxThreads s))"
    using None w by (auto simp: main_step_def split: if_splits)
  then have "started s < int mt"
    using C by (simp add: ThinBarrier_passable_def int_of_unsigned_id)
  then have lt: "ready_count s < mt - 1"
    using ctor_inv_started [OF inv] ctor_inv_zero [OF inv] w by simp
  show ?thesis
  proof (cases "next_tid s = mt - 1")
    case True
    have "\<exists>t. 0 < t \<and> t \<le> next_tid s \<and> wpc s t = WStart"
    proof (rule ccontr)
      assume "\<not> ?thesis"
      then have "{t. 0 < t \<and> t \<le> next_tid s \<and> wpc s t \<noteq> WStart} = {1..next_tid s}"
        by auto
      then show False
        using lt True by (simp add: ready_count_def)
    qed
    then obtain t where "wpc s t = WStart" by blast
    then have "step (EvWorker t) s \<noteq> None"
      by (simp add: worker_step_def)
    then show ?thesis by blast
  next
    case False
    have "\<exists>j. 0 < j \<and> j < mt \<and> j \<notin> running_handles s"
    proof (rule ccontr)
      assume "\<not> ?thesis"
      then have "{1..<mt} \<subseteq> running_handles s" by auto
      then have "running_handles s = {1..<mt}"
        using card_running(2) [OF h] by auto
      then show False
        using card_running(1) [OF h] False by simp
    qed
    then obtain j where j: "0 < j \<and> j < mt" "j \<notin> running_handles s" by blast
    then have "threads s j \<noteq> NoThread"
      using h unfolding handles_ok_def by blast
    then have "threads s j = Created"
      using j(2) by (cases "threads s j") (auto simp: running_handles_def)
    then have "step (EvBoot j) s \<noteq> None"
      by (simp add: boot_step_def Let_def)
    then show ?thesis by blast
  qed
qed

lemma ctor_can_return:
  assumes "ctor_inv mt env s"
  shows "\<exists>sched. mpc (exec sched s) = MIdle"
  using assms
proof (induction "ctor_measure mt s" arbitrary: s rule: less_induct)
  case less
  show ?case
  proof (cases "mpc s = MIdle")
    case True
    then have "mpc (exec [] s) = MIdle" by simp
    then show ?thesis by blast
  next
    case False
    then obtain e s' where st: "step e s = Some s'"
      using ctor_no_deadlock [OF less.prems] by blast
    have "ctor_inv mt env s'"
      using less.prems st by (rule ctor_step_preserves)
    moreover have "ctor_measure mt s' < ctor_measure mt s"
      using less.prems st by (rule ctor_measure_decreases)
    ultimately obtain sched where "mpc (exec sched s') = MIdle"
      using less.hyps by blast
    then have "mpc (exec (e # sched) s) = MIdle"
      using st by simp
    then show ?thesis by blast
  qed
qed

section \<open>Destruction\<close>

lemma quiescent_handles:
  assumes "quiescent q"
  shows "0 < maxThreads q" "maxThreads q < 2 ^ 31" "threads q i \<noteq> Created"
    and "0 < i \<Longrightarrow> i < maxThreads q \<Longrightarrow> \<exists>t. 0 < t \<and> t < maxThreads q \<and> threads q i = Running t"
    and "0 < t \<Longrightarrow> t < maxThreads q \<Longrightarrow> \<exists>j. 0 < j \<and> j < maxThreads q \<and> threads q j = Running t"
proof -
  show "0 < maxThreads q" "maxThreads q < 2 ^ 31"
    using assms by (simp_all add: quiescent_def)
  have h: "if 0 < i \<and> i < maxThreads q
      then (\<exists>t. 0 < t \<and> t < maxThreads q \<and> threads q i = Running t)
      else threads q i = NoThread"
    using assms unfolding quiescent_def by blast
  show "threads q i \<noteq> Created"
    using h by (cases "0 < i \<and> i < maxThreads q") auto
  show "\<exists>t. 0 < t \<and> t < maxThreads q \<and> threads q i = Running t"
    if "0 < i" "i < maxThreads q"
    using h that by simp
  have w: "if 0 < t \<and> t < maxThreads q
      then (wpc q t = WLoop \<or> wpc q t = WAcquire) \<and> starts q t = 0
           \<and> (\<exists>i. 0 < i \<and> i < maxThreads q \<and> threads q i = Running t)
      else wpc q t = WNone"
    using assms unfolding quiescent_def by blast
  show "\<exists>j. 0 < j \<and> j < maxThreads q \<and> threads q j = Running t"
    if "0 < t" "t < maxThreads q"
    using w that by simp
qed

lemma quiescent_workers:
  assumes "quiescent q"
  shows "0 < t \<Longrightarrow> t < maxThreads q \<Longrightarrow> (wpc q t = WLoop \<or> wpc q t = WAcquire) \<and> starts q t = 0"
    and "\<not> (0 < t \<and> t < maxThreads q) \<Longrightarrow> wpc q t = WNone"
    and "mpc q = MIdle" "\<not> shutdown q" "work q = []"
proof -
  have w: "if 0 < t \<and> t < maxThreads q
      then (wpc q t = WLoop \<or> wpc q t = WAcquire) \<and> starts q t = 0
           \<and> (\<exists>i. 0 < i \<and> i < maxThreads q \<and> threads q i = Running t)
      else wpc q t = WNone"
    using assms unfolding quiescent_def by blast
  show "(wpc q t = WLoop \<or> wpc q t = WAcquire) \<and> starts q t = 0"
    if "0 < t" "t < maxThreads q"
    using w that by simp
  show "wpc q t = WNone" if "\<not> (0 < t \<and> t < maxThreads q)"
    using w that by simp
  show "mpc q = MIdle" "\<not> shutdown q" "work q = []"
    using assms by (simp_all add: quiescent_def)
qed

lemma dtor_inv_initial:
  assumes q: "quiescent q"
  shows "dtor_inv q (destroy q)"
  unfolding dtor_inv_def
proof (intro conjI allI impI)
  show "quiescent q" by (rule q)
  show "dpc_ok (maxThreads q) (dtor_trace q) (destroy q) (mpc (destroy q))"
    using quiescent_workers(4) [OF q] by (simp add: destroy_def)
  show "if 0 < t \<and> t < maxThreads q then dwpc_ok (destroy q) t (wpc (destroy q) t)
      else wpc (destroy q) t = WNone" for t
    using quiescent_workers(1,2) [OF q, of t] by (auto simp: destroy_def)
  show "starts (destroy q) t = 0" "\<not> in_round (wpc (destroy q) t)"
    if "0 < t \<and> t < maxThreads q" for t
    using quiescent_workers(1) [OF q, of t] that by (auto simp: destroy_def)
qed (use quiescent_workers(5) [OF q] in \<open>simp_all add: destroy_def\<close>)

lemma dtor_inv_quiescent: "dtor_inv q s \<Longrightarrow> quiescent q"
  unfolding dtor_inv_def by blast

lemma dtor_inv_consts:
  "dtor_inv q s \<Longrightarrow> maxThreads s = maxThreads q \<and> threads s = threads q \<and> work s = []"
  unfolding dtor_inv_def by blast

lemma dtor_inv_main: "dtor_inv q s \<Longrightarrow> dpc_ok (maxThreads q) (dtor_trace q) s (mpc s)"
  unfolding dtor_inv_def by blast

lemma dtor_inv_worker:
  "dtor_inv q s \<Longrightarrow> 0 < t \<Longrightarrow> t < maxThreads q \<Longrightarrow> dwpc_ok s t (wpc s t)"
  unfolding dtor_inv_def by metis

lemma dtor_inv_outside:
  "dtor_inv q s \<Longrightarrow> \<not> (0 < t \<and> t < maxThreads q) \<Longrightarrow> wpc s t = WNone"
  unfolding dtor_inv_def by metis

lemma dtor_inv_before:
  "dtor_inv q s \<Longrightarrow> before_release (mpc s) \<Longrightarrow> 0 < t \<Longrightarrow> t < maxThreads q \<Longrightarrow>
   starts s t = 0 \<and> \<not> in_round (wpc s t)"
  unfolding dtor_inv_def by blast

lemma dtor_invI:
  assumes "dtor_inv q s"
    and "maxThreads s' = maxThreads s" "threads s' = threads s" "work s' = []"
    and "dpc_ok (maxThreads q) (dtor_trace q) s' (mpc s')"
    and "\<And>t. 0 < t \<Longrightarrow> t < maxThreads q \<Longrightarrow> dwpc_ok s' t (wpc s' t)"
    and "\<And>t. \<not> (0 < t \<and> t < maxThreads q) \<Longrightarrow> wpc s' t = wpc s t"
    and "\<And>t. before_release (mpc s') \<Longrightarrow> 0 < t \<Longrightarrow> t < maxThreads q \<Longrightarrow>
           starts s' t = 0 \<and> \<not> in_round (wpc s' t)"
  shows "dtor_inv q s'"
  using assms unfolding dtor_inv_def by auto

lemma dpc_ok_shutdown: "dpc_ok mt tr s m \<Longrightarrow> shutdown s = (m \<noteq> MDtorShutdown)"
  by (cases m) auto

lemma dpc_ok_frame:
  assumes "dpc_ok mt tr s m" "shutdown s' = shutdown s" "dtor_trace s' = dtor_trace s"
    and "threads s' = threads s" "\<And>t. wpc s t = WExit \<Longrightarrow> wpc s' t = WExit"
  shows "dpc_ok mt tr s' m"
  using assms by (cases m) (auto simp: all_joined_def)

lemma cascade_body_fields:
  "mpc (cascade_body u i s) = mpc s \<and> wpc (cascade_body u i s) = wpc s \<and>
   shutdown (cascade_body u i s) = shutdown s \<and> dtor_trace (cascade_body u i s) = dtor_trace s \<and>
   threads (cascade_body u i s) = threads s \<and> maxThreads (cascade_body u i s) = maxThreads s \<and>
   work (cascade_body u i s) = work s \<and> starts s t \<le> starts (cascade_body u i s) t"
  by (simp add: cascade_body_def gate_release_def Let_def)

lemma dwpc_ok_mono:
  assumes "dwpc_ok s t p" "mpc s' = mpc s" "shutdown s' = shutdown s" "starts s t \<le> starts s' t"
  shows "dwpc_ok s' t p"
  using assms by (cases p) auto

lemma dtor_boot_disabled:
  assumes "dtor_inv q s"
  shows "boot_step i s = None"
proof -
  have "quiescent q"
    using assms by (rule dtor_inv_quiescent)
  then have "threads q i \<noteq> Created"
    by (rule quiescent_handles(3))
  then have "threads s i \<noteq> Created"
    using dtor_inv_consts [OF assms] by simp
  then show ?thesis
    by (cases "threads s i") (simp_all add: boot_step_def)
qed

lemma dtor_worker_preserves:
  assumes inv: "dtor_inv q s" and st: "worker_step u s = Some s'"
  shows "dtor_inv q s'"
proof -
  note C = dtor_inv_consts [OF inv]
  note M = dtor_inv_main [OF inv]
  have "0 < u \<and> u < maxThreads q"
  proof (rule ccontr)
    assume "\<not> (0 < u \<and> u < maxThreads q)"
    then have "wpc s u = WNone"
      using inv dtor_inv_outside by blast
    then show False
      using st by (simp add: worker_step_def)
  qed
  then have u: "0 < u" "u < maxThreads q"
    by simp_all
  have W: "dwpc_ok s u (wpc s u)"
    using inv u by (rule dtor_inv_worker)
  have sd: "shutdown s = (mpc s \<noteq> MDtorShutdown)"
    using M by (rule dpc_ok_shutdown)
  have frame: "dtor_inv q s'"
    if eq: "maxThreads s' = maxThreads s" "threads s' = threads s" "work s' = []"
      "mpc s' = mpc s" "shutdown s' = shutdown s" "dtor_trace s' = dtor_trace s"
      and others: "\<And>t. t \<noteq> u \<Longrightarrow> wpc s' t = wpc s t"
      and gates: "\<And>t. t \<noteq> u \<Longrightarrow> starts s t \<le> starts s' t"
      and own: "dwpc_ok s' u (wpc s' u)" "wpc s u \<noteq> WExit"
      and br: "before_release (mpc s) \<Longrightarrow> starts s' = starts s \<and> \<not> in_round (wpc s' u)"
  proof (rule dtor_invI [OF inv])
    show "dpc_ok (maxThreads q) (dtor_trace q) s' (mpc s')"
      unfolding eq using M eq(5,6,2)
    proof (rule dpc_ok_frame)
      show "wpc s' t = WExit" if "wpc s t = WExit" for t
        using that others [of t] own(2) by (cases "t = u") simp_all
    qed
    show "dwpc_ok s' t (wpc s' t)" if "0 < t" "t < maxThreads q" for t
    proof (cases "t = u")
      case True
      then show ?thesis using own by simp
    next
      case False
      have "dwpc_ok s t (wpc s t)"
        using inv that by (rule dtor_inv_worker)
      then have "dwpc_ok s' t (wpc s t)"
        using eq(4,5) gates [OF False] by (rule dwpc_ok_mono)
      then show ?thesis
        using others [OF False] by simp
    qed
    show "wpc s' t = wpc s t" if "\<not> (0 < t \<and> t < maxThreads q)" for t
      using that u others [of t] by auto
    show "starts s' t = 0 \<and> \<not> in_round (wpc s' t)"
      if "before_release (mpc s')" "0 < t" "t < maxThreads q" for t
    proof -
      have b: "before_release (mpc s)" using that eq by simp
      have "starts s t = 0 \<and> \<not> in_round (wpc s t)"
        using inv b that(2,3) by (rule dtor_inv_before)
      then show ?thesis
        using br [OF b] others [of t] by (cases "t = u") simp_all
    qed
  qed (use eq in simp_all)
  show ?thesis
  proof (cases "wpc s u")
    case WNone
    then show ?thesis using st by (simp add: worker_step_def)
  next
    case WStart
    then show ?thesis using W by simp
  next
    case WExit
    then show ?thesis using st by (simp add: worker_step_def)
  next
    case WLoop
    then have s': "s' = s\<lparr>wpc := (wpc s)(u := (if shutdown s then WExit else WAcquire))\<rparr>"
      using st by (simp add: worker_step_def)
    show ?thesis
    proof (rule frame)
      show "dwpc_ok s' u (wpc s' u)"
        using sd by (cases "mpc s") (auto simp: s')
    qed (use C WLoop in \<open>auto simp: s'\<close>)
  next
    case WAcquire
    then have g: "0 < starts s u"
      and s': "s' = s\<lparr>starts := (starts s)(u := starts s u - 1), wpc := (wpc s)(u := WCascade 1)\<rparr>"
      using st by (auto simp: worker_step_def gate_acquire_def split: if_splits)
    have nb: "\<not> before_release (mpc s)"
      using dtor_inv_before [OF inv _ u] g by auto
    then have "shutdown s"
      using sd by (cases "mpc s") auto
    then show ?thesis
      using C WAcquire nb by (intro frame) (auto simp: s')
  next
    case (WCascade i)
    then have i: "(i = 1 \<or> i = 2) \<and> shutdown s"
      using W by simp
    have nb: "\<not> before_release (mpc s)"
      using dtor_inv_before [OF inv _ u] WCascade by auto
    have s': "s' = (cascade_body u i s)
        \<lparr>wpc := (wpc s)(u := (if i + 1 \<le> multiple then WCascade (i + 1) else WFetch))\<rparr>"
      using st WCascade by (simp add: worker_step_def)
    note cb = cascade_body_fields [of u i s]
    show ?thesis
    proof (rule frame)
      show "dwpc_ok s' u (wpc s' u)"
        using i cb by (auto simp: s' multiple_def)
      show "starts s t \<le> starts s' t" for t
        using cascade_body_fields [of u i s t] by (simp add: s')
    qed (use C WCascade nb cb in \<open>auto simp: s'\<close>)
  next
    case WFetch
    then have sh: "shutdown s" using W by simp
    have nb: "\<not> before_release (mpc s)"
      using dtor_inv_before [OF inv _ u] WFetch by auto
    have s': "s' = s\<lparr>wpc := (wpc s)(u := WWork [])\<rparr>"
      using st WFetch C by (simp add: worker_step_def)
    show ?thesis
      using C WFetch nb sh by (intro frame) (auto simp: s')
  next
    case (WWork cs)
    then have sh: "cs = [] \<and> shutdown s" using W by simp
    have nb: "\<not> before_release (mpc s)"
      using dtor_inv_before [OF inv _ u] WWork by auto
    have s': "s' = (signal_done u s)\<lparr>wpc := (wpc s)(u := WLoop)\<rparr>"
      using st WWork sh by (simp add: worker_step_def)
    show ?thesis
      using C WWork nb sh by (intro frame) (auto simp: s' signal_done_def)
  qed
qed

lemma dwpc_ok_main:
  assumes "dwpc_ok s t p" "starts s t \<le> starts s' t" "shutdown s \<Longrightarrow> shutdown s'"
    and "gate_released (mpc s') t \<Longrightarrow> gate_released (mpc s) t \<or> 0 < starts s' t"
  shows "dwpc_ok s' t p"
  using assms by (cases p) auto

lemma upt_snoc: "0 < i \<Longrightarrow> [1..<i + 1] = [1..<i] @ [i]"
  by simp

lemma dtor_main_preserves:
  assumes inv: "dtor_inv q s" and st: "main_step s = Some s'"
  shows "dtor_inv q s'"
proof -
  note C = dtor_inv_consts [OF inv]
  note M = dtor_inv_main [OF inv]
  note Q = quiescent_handles [OF dtor_inv_quiescent [OF inv]]
  let ?mt = "maxThreads q"
  let ?tr = "dtor_trace q"
  have W: "dwpc_ok s t (wpc s t)" if "0 < t" "t < ?mt" for t
    using inv that by (rule dtor_inv_worker)
  show ?thesis
  proof (cases "mpc s")
    case MDtorShutdown
    then have s': "s' = s\<lparr>shutdown := True, dtor_trace := dtor_trace s @ [SetShutdown],
        mpc := MDtorClear\<rparr>"
      using st by (simp add: main_step_def)
    show ?thesis
    proof (rule dtor_invI [OF inv])
      show "dpc_ok ?mt ?tr s' (mpc s')"
        using M MDtorShutdown by (simp add: s')
      show "dwpc_ok s' t (wpc s' t)" if "0 < t" "t < ?mt" for t
        using W [OF that] by (cases "wpc s t") (simp_all add: s')
      show "starts s' t = 0 \<and> \<not> in_round (wpc s' t)"
        if "before_release (mpc s')" "0 < t" "t < ?mt" for t
        using dtor_inv_before [OF inv _ that(2,3)] MDtorShutdown by (simp add: s')
    qed (use C in \<open>simp_all add: s'\<close>)
  next
    case MDtorClear
    then have s': "s' = s\<lparr>work := [], dtor_trace := dtor_trace s @ [ClearWork],
        mpc := MDtorRelease 1\<rparr>"
      using st by (simp add: main_step_def)
    show ?thesis
    proof (rule dtor_invI [OF inv])
      show "dpc_ok ?mt ?tr s' (mpc s')"
        using M MDtorClear Q(1) by (simp add: s')
      show "dwpc_ok s' t (wpc s' t)" if "0 < t" "t < ?mt" for t
        using W [OF that] that by (cases "wpc s t") (simp_all add: s')
    qed (use C in \<open>simp_all add: s'\<close>)
  next
    case (MDtorRelease i)
    then have m: "shutdown s" "0 < i" "i \<le> ?mt"
      "dtor_trace s = ?tr @ [SetShutdown, ClearWork] @ map ReleaseGate [1..<i]"
      using M by simp_all
    show ?thesis
    proof (cases "i < ?mt")
      case True
      then have s': "s' = s\<lparr>starts := (starts s)(i := starts s i + 1),
          posts := (posts s)(i := posts s i + 1),
          dtor_trace := dtor_trace s @ [ReleaseGate i], mpc := MDtorRelease (i + 1)\<rparr>"
        using st MDtorRelease C by (simp add: main_step_def gate_release_def)
      show ?thesis
      proof (rule dtor_invI [OF inv])
        show "dpc_ok ?mt ?tr s' (mpc s')"
          using m True by (simp add: s')
        show "dwpc_ok s' t (wpc s' t)" if "0 < t" "t < ?mt" for t
        proof -
          have "dwpc_ok s' t (wpc s t)"
            using W [OF that]
          proof (rule dwpc_ok_main)
            show "gate_released (mpc s) t \<or> 0 < starts s' t" if "gate_released (mpc s') t"
              using that MDtorRelease by (cases "t = i") (auto simp: s')
          qed (simp_all add: s')
          then show ?thesis by (simp add: s')
        qed
      qed (use C in \<open>simp_all add: s'\<close>)
    next
      case False
      then have s': "s' = s\<lparr>mpc := MDtorJoin 1\<rparr>" and im: "i = ?mt"
        using st MDtorRelease C m by (simp_all add: main_step_def)
      show ?thesis
      proof (rule dtor_invI [OF inv])
        show "dpc_ok ?mt ?tr s' (mpc s')"
          using m im Q(1) by (simp add: s' all_joined_def)
        show "dwpc_ok s' t (wpc s' t)" if "0 < t" "t < ?mt" for t
        proof -
          have "dwpc_ok s' t (wpc s t)"
            using W [OF that]
          proof (rule dwpc_ok_main)
            show "gate_released (mpc s) t \<or> 0 < starts s' t"
              using that MDtorRelease im by simp
          qed (simp_all add: s')
          then show ?thesis by (simp add: s')
        qed
      qed (use C in \<open>simp_all add: s'\<close>)
    qed
  next
    case (MDtorJoin i)
    then have m: "shutdown s" "0 < i" "i \<le> ?mt" "all_joined i s"
      "dtor_trace s = ?tr @ [SetShutdown, ClearWork] @ map ReleaseGate [1..<?mt] @
        map JoinThread [1..<i]"
      using M by simp_all
    have keep: "dwpc_ok s' t (wpc s' t)"
      if "0 < t" "t < ?mt" "starts s' = starts s" "shutdown s' = shutdown s" "wpc s' = wpc s"
        "gate_released (mpc s') t" for t
    proof -
      have "dwpc_ok s' t (wpc s t)"
        using W [OF that(1,2)]
      proof (rule dwpc_ok_main)
        show "gate_released (mpc s) t \<or> 0 < starts s' t"
          using MDtorJoin by simp
      qed (simp_all add: that)
      then show ?thesis by (simp add: that)
    qed
    show ?thesis
    proof (cases "i < ?mt")
      case True
      then obtain t where t: "threads s i = Running t" "wpc s t = WExit"
        and s': "s' = s\<lparr>dtor_trace := dtor_trace s @ [JoinThread i], mpc := MDtorJoin (i + 1)\<rparr>"
        using st MDtorJoin C
        by (auto simp: main_step_def split: if_splits handle.splits)
      have aj: "all_joined (i + 1) s'"
        unfolding all_joined_def
      proof (intro allI impI)
        fix j x
        assume a: "0 < j \<and> j < i + 1 \<and> threads s' j = Running x"
        show "wpc s' x = WExit"
        proof (cases "j = i")
          case True
          then show ?thesis using a t by (simp add: s')
        next
          case False
          then have "0 < j \<and> j < i \<and> threads s j = Running x"
            using a by (simp add: s')
          then have "wpc s x = WExit"
            using m(4) unfolding all_joined_def by blast
          then show ?thesis by (simp add: s')
        qed
      qed
      show ?thesis
      proof (rule dtor_invI [OF inv])
        show "dpc_ok ?mt ?tr s' (mpc s')"
          using m True aj by (simp add: s')
        show "dwpc_ok s' t (wpc s' t)" if "0 < t" "t < ?mt" for t
          using that by (rule keep) (simp_all add: s')
      qed (use C in \<open>simp_all add: s'\<close>)
    next
      case False
      then have s': "s' = s\<lparr>mpc := MDtorFree\<rparr>" and im: "i = ?mt"
        using st MDtorJoin C m by (simp_all add: main_step_def)
      show ?thesis
      proof (rule dtor_invI [OF inv])
        show "dpc_ok ?mt ?tr s' (mpc s')"
          using m im by (simp add: s' all_joined_def)
        show "dwpc_ok s' t (wpc s' t)" if "0 < t" "t < ?mt" for t
          using that by (rule keep) (simp_all add: s')
      qed (use C in \<open>simp_all add: s'\<close>)
    qed
  next
    case MDtorFree
    then have s': "s' = s\<lparr>dtor_trace := dtor_trace s @ [FreeArrays], mpc := MDead\<rparr>"
      using st by (simp add: main_step_def)
    show ?thesis
    proof (rule dtor_invI [OF inv])
      show "dpc_ok ?mt ?tr s' (mpc s')"
        using M MDtorFree by (simp add: s' all_joined_def)
      show "dwpc_ok s' t (wpc s' t)" if "0 < t" "t < ?mt" for t
      proof -
        have "dwpc_ok s' t (wpc s t)"
          using W [OF that]
        proof (rule dwpc_ok_main)
          show "gate_released (mpc s) t \<or> 0 < starts s' t"
            using MDtorFree by simp
        qed (simp_all add: s')
        then show ?thesis by (simp add: s')
      qed
    qed (use C in \<open>simp_all add: s'\<close>)
  next
    case MDead
    then show ?thesis using st by (simp add: main_step_def)
  qed (use M in simp_all)
qed

lemma dtor_step_preserves: "dtor_inv q s \<Longrightarrow> step e s = Some s' \<Longrightarrow> dtor_inv q s'"
  by (cases e) (auto intro: dtor_main_preserves dtor_worker_preserves simp: dtor_boot_disabled)

lemma dtor_exec_preserves: "dtor_inv q s \<Longrightarrow> dtor_inv q (exec sched s)"
proof (induction sched arbitrary: s)
  case Nil
  then show ?case by simp
next
  case (Cons e sched)
  show ?case
  proof (cases "step e s")
    case None
    then show ?thesis using Cons by simp
  next
    case (Some s')
    then have "dtor_inv q s'"
      using Cons.prems dtor_step_preserves by blast
    then show ?thesis
      using Cons.IH Some by simp
  qed
qed

lemma dtor_finished:
  assumes inv: "dtor_inv q s" and dead: "mpc s = MDead"
  shows "dtor_trace s = dtor_trace q @ [SetShutdown, ClearWork] @
      map ReleaseGate [1..<maxThreads q] @ map JoinThread [1..<maxThreads q] @ [FreeArrays]"
    and "shutdown s" and "work s = []"
    and "0 < t \<Longrightarrow> t < maxThreads q \<Longrightarrow> wpc s t = WExit"
proof -
  note C = dtor_inv_consts [OF inv]
  have M: "shutdown s" "all_joined (maxThreads q) s"
    "dtor_trace s = dtor_trace q @ [SetShutdown, ClearWork] @
      map ReleaseGate [1..<maxThreads q] @ map JoinThread [1..<maxThreads q] @ [FreeArrays]"
    using dtor_inv_main [OF inv] dead by simp_all
  show "shutdown s" "work s = []" using M C by simp_all
  show "dtor_trace s = dtor_trace q @ [SetShutdown, ClearWork] @
      map ReleaseGate [1..<maxThreads q] @ map JoinThread [1..<maxThreads q] @ [FreeArrays]"
    by (rule M)
  show "wpc s t = WExit" if "0 < t" "t < maxThreads q"
  proof -
    have "\<exists>j. 0 < j \<and> j < maxThreads q \<and> threads q j = Running t"
      using dtor_inv_quiescent [OF inv] that by (rule quiescent_handles(5))
    then obtain j where "0 < j \<and> j < maxThreads q \<and> threads s j = Running t"
      using C by auto
    then show ?thesis
      using M(2) unfolding all_joined_def by blast
  qed
qed

subsection \<open>The destructor returns\<close>

lemma dwrem_shutdown: "dwrem p True \<le> dwrem p sd"
  by (cases p) simp_all

lemma dtor_main_local:
  assumes inv: "dtor_inv q s" and st: "main_step s = Some s'"
  shows "wpc s' = wpc s \<and> maxThreads s' = maxThreads s \<and> (shutdown s \<longrightarrow> shutdown s') \<and>
    dmrem (maxThreads s) (mpc s') < dmrem (maxThreads s) (mpc s)"
proof -
  note C = dtor_inv_consts [OF inv]
  note M = dtor_inv_main [OF inv]
  note Q = quiescent_handles(1) [OF dtor_inv_quiescent [OF inv]]
  show ?thesis
    using st M C Q
    by (cases "mpc s")
      (auto simp: main_step_def gate_release_def split: if_splits handle.splits)
qed

lemma dtor_worker_local:
  assumes inv: "dtor_inv q s" and st: "worker_step u s = Some s'"
  shows "mpc s' = mpc s \<and> maxThreads s' = maxThreads s \<and> shutdown s' = shutdown s \<and>
    0 < u \<and> u < maxThreads s \<and> (\<forall>t. t \<noteq> u \<longrightarrow> wpc s' t = wpc s t) \<and>
    dwrem (wpc s' u) (shutdown s) < dwrem (wpc s u) (shutdown s)"
proof -
  note C = dtor_inv_consts [OF inv]
  have u: "0 < u \<and> u < maxThreads q"
  proof (rule ccontr)
    assume "\<not> (0 < u \<and> u < maxThreads q)"
    then have "wpc s u = WNone"
      using inv dtor_inv_outside by blast
    then show False
      using st by (simp add: worker_step_def)
  qed
  have W: "dwpc_ok s u (wpc s u)"
    using dtor_inv_worker [OF inv, of u] u by simp
  have sd: "shutdown s = (mpc s \<noteq> MDtorShutdown)"
    using dtor_inv_main [OF inv] by (rule dpc_ok_shutdown)
  show ?thesis
  proof (cases "wpc s u")
    case WLoop
    then show ?thesis
      using st u C by (auto simp: worker_step_def)
  next
    case WAcquire
    then show ?thesis
      using st u C by (auto simp: worker_step_def gate_acquire_def split: if_splits)
  next
    case (WCascade i)
    then have "i = 1 \<or> i = 2" using W by simp
    then show ?thesis
      using st u C WCascade cascade_body_fields [of u i s]
      by (auto simp: worker_step_def multiple_def)
  next
    case WFetch
    then show ?thesis
      using st u C by (auto simp: worker_step_def)
  next
    case (WWork cs)
    then have "cs = [] \<and> shutdown s" using W by simp
    then show ?thesis
      using st u C WWork by (auto simp: worker_step_def signal_done_def)
  qed (use st W in \<open>simp_all add: worker_step_def\<close>)
qed

lemma dtor_measure_decreases:
  assumes inv: "dtor_inv q s" and st: "step e s = Some s'"
  shows "dtor_measure s' < dtor_measure s"
proof (cases e)
  case EvMain
  then have ms: "main_step s = Some s'"
    using st by simp
  note l = dtor_main_local [OF inv ms]
  have "(\<Sum>t = 1..<maxThreads s. dwrem (wpc s' t) (shutdown s')) \<le>
      (\<Sum>t = 1..<maxThreads s. dwrem (wpc s t) (shutdown s))"
  proof (rule sum_mono)
    fix t
    show "dwrem (wpc s' t) (shutdown s') \<le> dwrem (wpc s t) (shutdown s)"
      using l dwrem_shutdown [of "wpc s t" "shutdown s"]
      by (cases "shutdown s'") (auto simp: )
  qed
  then show ?thesis
    using l by (simp add: dtor_measure_def)
next
  case (EvBoot i)
  then show ?thesis
    using st dtor_boot_disabled [OF inv] by simp
next
  case (EvWorker u)
  then have ws: "worker_step u s = Some s'"
    using st by simp
  note l = dtor_worker_local [OF inv ws]
  let ?f = "\<lambda>s t. dwrem (wpc s t) (shutdown s)"
  have "(\<Sum>t = 1..<maxThreads s. ?f s' t) < (\<Sum>t = 1..<maxThreads s. ?f s t)"
  proof (rule sum_strict_mono_ex1)
    show "\<forall>t\<in>{1..<maxThreads s}. ?f s' t \<le> ?f s t"
    proof
      fix t
      show "?f s' t \<le> ?f s t"
        using l by (cases "t = u") simp_all
    qed
    have "u \<in> {1..<maxThreads s}" using l by simp
    then show "\<exists>a\<in>{1..<maxThreads s}. ?f s' a < ?f s a"
      using l by auto
  qed simp
  then show ?thesis
    using l by (simp add: dtor_measure_def)
qed

lemma dtor_no_deadlock:
  assumes inv: "dtor_inv q s" and busy: "mpc s \<noteq> MDead"
  shows "\<exists>e s'. step e s = Some s'"
proof (cases "main_step s")
  case (Some s')
  then have "step EvMain s = Some s'" by simp
  then show ?thesis by blast
next
  case None
  note C = dtor_inv_consts [OF inv]
  note M = dtor_inv_main [OF inv]
  obtain i where w: "mpc s = MDtorJoin i" and i: "i < maxThreads s"
    using None M busy
    by (cases "mpc s") (auto simp: main_step_def split: if_splits)
  have i0: "0 < i" using M w by simp
  have "\<exists>t. 0 < t \<and> t < maxThreads q \<and> threads q i = Running t"
    using dtor_inv_quiescent [OF inv] i0 i C by (intro quiescent_handles(4)) simp_all
  then obtain t where t: "0 < t" "t < maxThreads q" "threads s i = Running t"
    using C by auto
  then have ne: "wpc s t \<noteq> WExit"
    using None w i by (auto simp: main_step_def split: if_splits)
  have W: "dwpc_ok s t (wpc s t)"
    using inv t(1,2) by (rule dtor_inv_worker)
  have "\<exists>s'. worker_step t s = Some s'"
  proof (cases "wpc s t")
    case WAcquire
    then have "0 < starts s t" using W w by simp
    then show ?thesis
      using WAcquire by (simp add: worker_step_def gate_acquire_def)
  next
    case (WWork cs)
    then show ?thesis
      by (cases cs) (simp_all add: worker_step_def)
  qed (use W ne in \<open>simp_all add: worker_step_def\<close>)
  then obtain s' where "step (EvWorker t) s = Some s'"
    by auto
  then show ?thesis by blast
qed

lemma dtor_can_finish:
  assumes "dtor_inv q s"
  shows "\<exists>sched. mpc (exec sched s) = MDead"
  using assms
proof (induction "dtor_measure s" arbitrary: s rule: less_induct)
  case less
  show ?case
  proof (cases "mpc s = MDead")
    case True
    then have "mpc (exec [] s) = MDead" by simp
    then show ?thesis by blast
  next
    case False
    then obtain e s' where st: "step e s = Some s'"
      using dtor_no_deadlock [OF less.prems] by blast
    have "dtor_inv q s'"
      using less.prems st by (rule dtor_step_preserves)
    moreover have "dtor_measure s' < dtor_measure s"
      using less.prems st by (rule dtor_measure_decreases)
    ultimately obtain sched where "mpc (exec sched s') = MDead"
      using less.hyps by blast
    then have "mpc (exec (e # sched) s) = MDead"
      using st by simp
    then show ?thesis by blast
  qed
qed

lemma taken_bounded:
  assumes dec: "\<And>s e s'. I s \<Longrightarrow> step e s = Some s' \<Longrightarrow> I s' \<and> \<mu> s' < (\<mu> s :: nat)"
    and "I s"
  shows "taken sched s \<le> \<mu> s"
  using assms(2)
proof (induction sched arbitrary: s)
  case Nil
  then show ?case by simp
next
  case (Cons e sched)
  show ?case
  proof (cases "step e s")
    case None
    then show ?thesis using Cons by simp
  next
    case (Some s')
    then have "I s'" "\<mu> s' < \<mu> s"
      using dec Cons.prems by blast+
    then show ?thesis
      using Cons.IH [of s'] Some by simp
  qed
qed

section \<open>Consequences of the invariants\<close>

text \<open>
  The bound on the thread count is needed: the child index is computed in \<^verbatim>\<open>unsigned\<close>,
  and for thread \<open>2\<^sup>3\<^sup>1 - 1\<close> its second value wraps to 0.
\<close>

lemma cascade_body_wraps:
  "0 < starting s \<Longrightarrow> posts (cascade_body (2 ^ 31 - 1) 2 s) 0 = posts s 0 + 1"
  by (simp add: cascade_body_def gate_release_def multiple_def u32_def)

lemma cascade_posts:
  assumes "tid + 1 < 2 ^ 31"
  shows "posts (cascade tid x) g =
    posts x g + (if (g = 2 * tid + 1 \<or> g = 2 * tid + 2) \<and> g < starting x then 1 else 0)"
proof -
  have 1: "tid * 2 + 1 < 2 ^ 32" and 2: "tid * 2 + 2 < 2 ^ 32"
    using assms by simp_all
  show ?thesis
    unfolding cascade_def cascade_body_eq [OF 1] cascade_body_eq [OF 2]
    by (simp add: gate_release_def)
qed

lemma run_summary:
  fixes s :: "'c pool"
  assumes q: "quiescent s"
  shows "run_inv (min (max n 1) (maxThreads s)) ws (exec sched (runInternal n ws (observe s)))"
    and "same_pool (runInternal n ws (observe s)) (exec sched (runInternal n ws (observe s)))"
proof -
  let ?k = "min (max n 1) (maxThreads s)"
  have "run_inv ?k ws (runInternal n ws (observe s))"
    using q by (rule run_inv_initial)
  moreover have "same_pool (runInternal n ws (observe s)) (runInternal n ws (observe s))"
    by (simp add: same_pool_def)
  ultimately have "run_inv ?k ws (exec sched (runInternal n ws (observe s))) \<and>
      same_pool (runInternal n ws (observe s)) (exec sched (runInternal n ws (observe s)))"
    by (rule exec_run)
  then show "run_inv ?k ws (exec sched (runInternal n ws (observe s)))"
    and "same_pool (runInternal n ws (observe s)) (exec sched (runInternal n ws (observe s)))"
    by simp_all
qed

lemma quiescent_after_run:
  assumes q: "quiescent s" and idle: "mpc (exec sched (runInternal n ws (observe s))) = MIdle"
  shows "quiescent (exec sched (runInternal n ws (observe s)))"
proof -
  let ?init = "runInternal n ws (observe s)"
  note r = run_summary [OF q, of n ws sched]
  note ret = run_inv_returned [OF r(1) idle]
  have C: "\<not> shutdown (exec sched ?init)"
    using run_inv_consts [OF r(1)] by simp
  have S: "maxThreads (exec sched ?init) = maxThreads s" "threads (exec sched ?init) = threads s"
    using r(2) by (simp_all add: same_pool_def runInternal_def observe_def)
  have k: "starting (exec sched ?init) \<le> maxThreads s"
    using ret(7) by simp
  have out: "\<not> (0 < t \<and> t < maxThreads s) \<Longrightarrow> wpc (exec sched ?init) t = WNone" for t
    using run_inv_outside [OF r(1), of t] S by simp
  have pk: "0 < t \<Longrightarrow> t < maxThreads s \<Longrightarrow>
      (wpc (exec sched ?init) t = WLoop \<or> wpc (exec sched ?init) t = WAcquire) \<and>
      starts (exec sched ?init) t = 0" for t
    using ret(4) [of t] S by simp
  show ?thesis
    using q C ret(6) k out pk idle unfolding quiescent_def S by auto
qed

lemma run_inv_signals:
  assumes inv: "run_inv k ws s"
  shows "signals s t \<le> (if 0 < t \<and> t < k then 1 else 0)"
proof (cases "0 < t \<and> t < maxThreads s")
  case True
  then have W: "worker_inv k ws s t"
    using run_inv_worker [OF inv] by blast
  have sg: "signals s t = 0 \<or> signals s t = 1"
    using wpc_ok_signals [OF worker_inv_local [OF W]] by blast
  show ?thesis
  proof (cases "signals s t = 0")
    case True
    then show ?thesis by simp
  next
    case False
    then have "acquired s t" by (simp add: acquired_def)
    then have "released k s t"
      using acquired_released(1) [OF W] by blast
    then show ?thesis
      using sg by (auto simp: released_def)
  qed
next
  case False
  then show ?thesis
    using run_inv_outside [OF inv False] run_inv_consts [OF inv] by (cases "t = 0") simp_all
qed

lemma run_inv_wait:
  assumes inv: "run_inv k ws s" and w: "mpc s = MWait"
  shows "(step EvMain s = None) = (started s < int k - 1)"
proof -
  have C: "num s = k" "0 < k" "k \<le> maxThreads s" "maxThreads s < 2 ^ 31"
    using run_inv_consts [OF inv] by simp_all
  have "int_of_unsigned (u32 (num s + 2 ^ 32 - 1)) = int k - 1"
    unfolding C(1) using C by (intro wait_count) auto
  then show ?thesis
    using w by (simp add: main_step_def ThinBarrier_passable_def)
qed

lemma dtor_trace_prefix:
  assumes "dpc_ok mt tr s m"
  shows "\<exists>rest. dtor_trace s @ rest =
    tr @ [SetShutdown, ClearWork] @ map ReleaseGate [1..<mt] @ map JoinThread [1..<mt] @ [FreeArrays]"
proof (cases m)
  case (MDtorRelease i)
  then have i: "0 < i" "i \<le> mt"
    and tr: "dtor_trace s = tr @ [SetShutdown, ClearWork] @ map ReleaseGate [1..<i]"
    using assms by simp_all
  have "[1..<mt] = [1..<i] @ [i..<mt]"
    using i upt_add_eq_append [of 1 i "mt - i"] by simp
  then show ?thesis
    unfolding tr by simp
next
  case (MDtorJoin i)
  then have i: "0 < i" "i \<le> mt"
    and tr: "dtor_trace s = tr @ [SetShutdown, ClearWork] @ map ReleaseGate [1..<mt] @
        map JoinThread [1..<i]"
    using assms by simp_all
  have "[1..<mt] = [1..<i] @ [i..<mt]"
    using i upt_add_eq_append [of 1 i "mt - i"] by simp
  then have "map JoinThread [1..<mt] = map JoinThread [1..<i] @ map JoinThread [i..<mt]"
    by (metis map_append)
  then show ?thesis
    unfolding tr by simp
qed (use assms in simp_all)

section \<open>The example pools\<close>

lemmas exec_defs = main_step_def worker_step_def boot_step_def initThread_def
  cascade_body_def gate_release_def gate_acquire_def run_command_def signal_done_def
  ThinBarrier_ctor_def ThinBarrier_release_def ThinBarrier_passable_def ThinBarrier_reset_def
  s32_def u32_def int_of_unsigned_def multiple_def runInternal_def observe_def destroy_def
  getSystemThreadPool_def ThreadPool_pthread_def static_storage_def Let_def

lemma pool2_idle: "mpc pool2 = MIdle"
  by (simp add: pool2_def exec_defs)

lemma quiescent_pool2: "quiescent pool2"
proof -
  have "ctor_inv 2 (\<lambda>_. False) pool2"
    unfolding pool2_def by (intro ctor_exec_preserves ctor_inv_initial) simp_all
  then show ?thesis
    using pool2_idle by (rule ctor_returned(1))
qed

lemma maxThreads_pool2: "maxThreads pool2 = 2"
  by (simp add: pool2_def exec_defs)

lemma round2_idle: "mpc (exec round2 (runInternal 2 [7, 9] (observe pool2))) = MIdle"
  by (simp add: pool2_def round2_def exec_defs)

lemma wait2_state:
  "mpc (exec wait2 (runInternal 2 [7, 9] (observe pool2))) = MWait \<and>
   started (exec wait2 (runInternal 2 [7, 9] (observe pool2))) = 0"
  by (simp add: pool2_def wait2_def exec_defs)

lemma pool5_idle: "mpc pool5 = MIdle"
  by (simp add: pool5_def exec_defs)

lemma pool5_eq: "pool5 = exec ctor5 (getSystemThreadPool 5 (\<lambda>_. False))"
  by (simp add: pool5_def ctor5_def)

lemma quiescent_pool5: "quiescent pool5"
proof -
  have "ctor_inv 5 (\<lambda>_. False) pool5"
    unfolding pool5_def by (intro ctor_exec_preserves ctor_inv_initial) simp_all
  then show ?thesis
    using pool5_idle by (rule ctor_returned(1))
qed

lemma maxThreads_pool5: "maxThreads pool5 = 5"
  by (simp add: pool5_def exec_defs)

lemma round5_idle: "mpc (exec round5 (runInternal 4 [7] (observe pool5))) = MIdle"
  by (simp add: pool5_def round5_def exec_defs)

lemma quiescent_after5: "quiescent after5"
  unfolding after5_def using quiescent_pool5 round5_idle by (rule quiescent_after_run)

lemma stop5_dead:
  "mpc (exec stop5 (destroy after5)) = MDead \<and> starts (exec stop5 (destroy after5)) 3 = 2
   \<and> dtor_trace after5 = []"
  by (simp add: after5_def stop5_def pool5_def round5_def exec_defs)

section \<open>Invocation, construction and destruction under every schedule\<close>

text \<open>
  C1. Let the pool be quiescent and \<open>1 \<le> k \<le> maxThreads\<close>, and let a round with
  activation count \<open>k\<close> run under any schedule. At every moment no gate has been posted
  twice and only gates of threads \<open>1 .. k - 1\<close> have been posted; a thread with id
  \<open>\<ge> k\<close> is never released, never leaves its parking points and runs no command. When
  \<^verbatim>\<open>runInternal\<close> has returned every gate of \<open>1 .. k - 1\<close> has been posted exactly
  once, so the activated threads are exactly \<open>0 .. k - 1\<close>; with \<open>k = 1\<close> no gate is
  posted at all. From every state of the round the call can still return. And
  \<^verbatim>\<open>cascade(tid)\<close> by itself posts the gates of \<open>2 tid + 1\<close> and \<open>2 tid + 2\<close>, each
  exactly when it is below \<^verbatim>\<open>starting\<close>.
\<close>

theorem cascade_activates_exactly:
  fixes s :: "'c pool"
  assumes "quiescent s" and "1 \<le> k" and "k \<le> maxThreads s"
  shows "(\<forall>t. posts (exec sched (runInternal k ws (observe s))) t \<le> (if 0 < t \<and> t < k then 1 else 0))
    \<and> (\<forall>t. k \<le> t \<longrightarrow>
          posts (exec sched (runInternal k ws (observe s))) t = 0 \<and>
          executed (exec sched (runInternal k ws (observe s))) t = [] \<and>
          \<not> in_round (wpc (exec sched (runInternal k ws (observe s))) t))
    \<and> (mpc (exec sched (runInternal k ws (observe s))) = MIdle \<longrightarrow>
          (\<forall>t. posts (exec sched (runInternal k ws (observe s))) t =
             (if 0 < t \<and> t < k then 1 else 0)) \<and>
          activated (exec sched (runInternal k ws (observe s))) = {0..<k})
    \<and> (k = 1 \<longrightarrow> (\<forall>t. posts (exec sched (runInternal k ws (observe s))) t = 0))
    \<and> (\<exists>more. mpc (exec more (exec sched (runInternal k ws (observe s)))) = MIdle)
    \<and> (\<forall>tid g (x :: 'c pool). tid < maxThreads s \<longrightarrow>
          posts (cascade tid x) g =
          posts x g + (if (g = 2 * tid + 1 \<or> g = 2 * tid + 2) \<and> g < starting x then 1 else 0))"
proof -
  let ?s = "exec sched (runInternal k ws (observe s))"
  have k: "min (max k 1) (maxThreads s) = k"
    using assms by simp
  have "run_inv (min (max k 1) (maxThreads s)) ws (runInternal k ws (observe s))"
    using assms(1) by (rule run_inv_initial)
  then have inv: "run_inv k ws ?s"
    unfolding k by (rule exec_preserves)
  have b: "posts ?s t \<le> (if 0 < t \<and> t < k then 1 else 0)" for t
    using run_inv_bounds(1) [OF inv] .
  have o: "posts ?s t = 0 \<and> executed ?s t = [] \<and> \<not> in_round (wpc ?s t)" if "k \<le> t" for t
    using run_inv_bounds(2) [OF inv that] b [of t] that by simp
  have r: "(\<forall>t. posts ?s t = (if 0 < t \<and> t < k then 1 else 0)) \<and> activated ?s = {0..<k}"
    if "mpc ?s = MIdle"
  proof -
    have p: "posts ?s t = (if 0 < t \<and> t < k then 1 else 0)" for t
      using run_inv_returned(1) [OF inv that] .
    have "activated ?s = {0..<k}"
      using assms(2) unfolding activated_def by (auto simp: p)
    then show ?thesis using p by blast
  qed
  have one: "posts ?s t = 0" if "k = 1" for t
    using b [of t] that by (cases "t = 0") simp_all
  have "maxThreads s < 2 ^ 31"
    using assms(1) by (simp add: quiescent_def)
  then have c: "posts (cascade tid x) g =
      posts x g + (if (g = 2 * tid + 1 \<or> g = 2 * tid + 2) \<and> g < starting x then 1 else 0)"
    if "tid < maxThreads s" for tid g and x :: "'c pool"
    using that by (intro cascade_posts) simp
  have A: "\<forall>t. posts ?s t \<le> (if 0 < t \<and> t < k then 1 else 0)"
    using b by (intro allI)
  have B: "\<forall>t. k \<le> t \<longrightarrow> posts ?s t = 0 \<and> executed ?s t = [] \<and> \<not> in_round (wpc ?s t)"
    using o by (intro allI impI)
  have C: "mpc ?s = MIdle \<longrightarrow>
      (\<forall>t. posts ?s t = (if 0 < t \<and> t < k then 1 else 0)) \<and> activated ?s = {0..<k}"
    using r by (intro impI)
  have D: "k = 1 \<longrightarrow> (\<forall>t. posts ?s t = 0)"
    using one by (intro allI impI)
  have E: "\<exists>more. mpc (exec more ?s) = MIdle"
    using inv by (rule run_can_return)
  have F: "\<forall>tid g (x :: 'c pool). tid < maxThreads s \<longrightarrow>
      posts (cascade tid x) g =
      posts x g + (if (g = 2 * tid + 1 \<or> g = 2 * tid + 2) \<and> g < starting x then 1 else 0)"
    using c by (intro allI impI)
  show ?thesis
    by (intro conjI A B C D E F)
qed

theorem cascade_activates_exactly_witness:
  "quiescent pool5 \<and> 1 \<le> (4 :: nat) \<and> 4 \<le> maxThreads pool5
   \<and> mpc (exec round5 (runInternal 4 [7] (observe pool5))) = MIdle
   \<and> activated (exec round5 (runInternal 4 [7] (observe pool5))) = {0..<4}
   \<and> posts (exec round5 (runInternal 4 [7] (observe pool5))) 3 = 1
   \<and> posts (exec round5 (runInternal 4 [7] (observe pool5))) 4 = 0
   \<and> executed (exec round5 (runInternal 4 [7] (observe pool5))) 4 = []"
proof -
  have m: "4 \<le> maxThreads pool5" by (simp add: maxThreads_pool5)
  have one: "1 \<le> (4 :: nat)" by simp
  show ?thesis
    using cascade_activates_exactly [OF quiescent_pool5 one m, of round5 "[7]"]
      round5_idle quiescent_pool5 m
    by simp
qed

text \<open>
  C2. Let the pool be quiescent (no invocation in flight) and let
  \<^verbatim>\<open>runInternal(n, ws)\<close> run under any schedule, with \<open>k = min (max n 1) maxThreads\<close>.
  When the call has returned, every thread with id \<open>< k\<close> has run exactly the sequence
  \<open>ws\<close>, in order and once, every other thread has run nothing, the work range is
  cleared and the pool is quiescent again. From every state of the round the call can
  still return, and no schedule takes more steps than the measure of the first state.
\<close>

theorem runInternal_runs_work:
  fixes s :: "'c pool"
  assumes "quiescent s"
  shows "(mpc (exec sched (runInternal n ws (observe s))) = MIdle \<longrightarrow>
            (\<forall>t. executed (exec sched (runInternal n ws (observe s))) t =
               (if t < min (max n 1) (maxThreads s) then ws else [])) \<and>
            work (exec sched (runInternal n ws (observe s))) = [] \<and>
            quiescent (exec sched (runInternal n ws (observe s))))
    \<and> (\<exists>more. mpc (exec more (exec sched (runInternal n ws (observe s)))) = MIdle)
    \<and> taken sched (runInternal n ws (observe s)) \<le>
        run_measure (min (max n 1) (maxThreads s)) (length ws) (runInternal n ws (observe s))"
proof -
  let ?k = "min (max n 1) (maxThreads s)"
  let ?init = "runInternal n ws (observe s)"
  have inv0: "run_inv ?k ws ?init"
    using assms by (rule run_inv_initial)
  have inv: "run_inv ?k ws (exec sched ?init)"
    using inv0 by (rule exec_preserves)
  have A: "mpc (exec sched ?init) = MIdle \<longrightarrow>
      (\<forall>t. executed (exec sched ?init) t = (if t < ?k then ws else [])) \<and>
      work (exec sched ?init) = [] \<and> quiescent (exec sched ?init)"
  proof
    assume idle: "mpc (exec sched ?init) = MIdle"
    show "(\<forall>t. executed (exec sched ?init) t = (if t < ?k then ws else [])) \<and>
        work (exec sched ?init) = [] \<and> quiescent (exec sched ?init)"
      using run_inv_returned(2,6) [OF inv idle] quiescent_after_run [OF assms idle] by blast
  qed
  have B: "\<exists>more. mpc (exec more (exec sched ?init)) = MIdle"
    using inv by (rule run_can_return)
  have C: "taken sched ?init \<le> run_measure ?k (length ws) ?init"
  proof (rule taken_bounded [where I = "run_inv ?k ws"])
    show "run_inv ?k ws s' \<and> run_measure ?k (length ws) s' < run_measure ?k (length ws) x"
      if "run_inv ?k ws x" "step e x = Some s'" for x e s'
      using step_preserves [OF that] run_measure_decreases [OF that] by simp
  qed (rule inv0)
  show ?thesis
    by (intro conjI A B C)
qed

theorem runInternal_runs_work_witness:
  "quiescent pool5
   \<and> mpc (exec round5 (runInternal 4 [7] (observe pool5))) = MIdle
   \<and> executed (exec round5 (runInternal 4 [7] (observe pool5))) 0 = [7]
   \<and> executed (exec round5 (runInternal 4 [7] (observe pool5))) 3 = [7]
   \<and> executed (exec round5 (runInternal 4 [7] (observe pool5))) 4 = []
   \<and> work (exec round5 (runInternal 4 [7] (observe pool5))) = []
   \<and> quiescent (exec round5 (runInternal 4 [7] (observe pool5)))"
  using runInternal_runs_work [OF quiescent_pool5, of round5 4 "[7]"]
    round5_idle quiescent_pool5
  by (simp add: maxThreads_pool5)

text \<open>
  C3, as the code has it. In a round with activation count \<open>k\<close> only the woken
  threads \<open>1 .. k - 1\<close> add to the barrier, each at most once; thread 0, the
  initiator, never does. \<^verbatim>\<open>runInternal\<close> stays in \<^verbatim>\<open>started.acquire(num - 1)\<close>
  exactly while the counter is below \<open>k - 1\<close>. When it has returned each of the threads
  \<open>1 .. k - 1\<close> has added exactly once and the counter is \<open>k - 1\<close>.
\<close>

theorem rendezvous_counts_workers:
  fixes s :: "'c pool"
  assumes "quiescent s"
  shows "(\<forall>t. signals (exec sched (runInternal n ws (observe s))) t \<le>
            (if 0 < t \<and> t < min (max n 1) (maxThreads s) then 1 else 0))
    \<and> (mpc (exec sched (runInternal n ws (observe s))) = MWait \<longrightarrow>
          (step EvMain (exec sched (runInternal n ws (observe s))) = None) =
          (started (exec sched (runInternal n ws (observe s))) <
             int (min (max n 1) (maxThreads s)) - 1))
    \<and> (mpc (exec sched (runInternal n ws (observe s))) = MIdle \<longrightarrow>
          (\<forall>t. signals (exec sched (runInternal n ws (observe s))) t =
             (if 0 < t \<and> t < min (max n 1) (maxThreads s) then 1 else 0)) \<and>
          started (exec sched (runInternal n ws (observe s))) =
            int (min (max n 1) (maxThreads s)) - 1)
    \<and> (\<exists>more. mpc (exec more (exec sched (runInternal n ws (observe s)))) = MIdle)"
proof -
  let ?k = "min (max n 1) (maxThreads s)"
  let ?s = "exec sched (runInternal n ws (observe s))"
  have inv: "run_inv ?k ws ?s"
    using run_inv_initial [OF assms] by (rule exec_preserves)
  have A: "\<forall>t. signals ?s t \<le> (if 0 < t \<and> t < ?k then 1 else 0)"
    using run_inv_signals [OF inv] by (intro allI)
  have B: "mpc ?s = MWait \<longrightarrow> (step EvMain ?s = None) = (started ?s < int ?k - 1)"
    using run_inv_wait [OF inv] by (intro impI)
  have C: "mpc ?s = MIdle \<longrightarrow>
      (\<forall>t. signals ?s t = (if 0 < t \<and> t < ?k then 1 else 0)) \<and> started ?s = int ?k - 1"
  proof
    assume idle: "mpc ?s = MIdle"
    show "(\<forall>t. signals ?s t = (if 0 < t \<and> t < ?k then 1 else 0)) \<and> started ?s = int ?k - 1"
      using run_inv_returned(3,5) [OF inv idle] by blast
  qed
  have D: "\<exists>more. mpc (exec more ?s) = MIdle"
    using inv by (rule run_can_return)
  show ?thesis
    by (intro conjI A B C D)
qed

theorem rendezvous_counts_workers_witness:
  "quiescent pool2
   \<and> mpc (exec wait2 (runInternal 2 [7, 9] (observe pool2))) = MWait
   \<and> step EvMain (exec wait2 (runInternal 2 [7, 9] (observe pool2))) = None
   \<and> mpc (exec round2 (runInternal 2 [7, 9] (observe pool2))) = MIdle
   \<and> signals (exec round2 (runInternal 2 [7, 9] (observe pool2))) 0 = 0
   \<and> signals (exec round2 (runInternal 2 [7, 9] (observe pool2))) 1 = 1
   \<and> started (exec round2 (runInternal 2 [7, 9] (observe pool2))) = 1"
  using rendezvous_counts_workers [OF quiescent_pool2, of round2 2 "[7, 9]"]
    rendezvous_counts_workers [OF quiescent_pool2, of wait2 2 "[7, 9]"]
    round2_idle wait2_state quiescent_pool2
  by (simp add: maxThreads_pool2)

text \<open>
  C3 as stated fails: after a round of a pool of two threads with activation count 2,
  the initiator has not added to the barrier and the counter is 1, not \<^verbatim>\<open>starting\<close>.
\<close>

theorem initiator_does_not_signal:
  "mpc (exec round2 (runInternal 2 [7, 9] (observe pool2))) = MIdle
   \<and> starting (exec round2 (runInternal 2 [7, 9] (observe pool2))) = 2
   \<and> signals (exec round2 (runInternal 2 [7, 9] (observe pool2))) 0 = 0
   \<and> started (exec round2 (runInternal 2 [7, 9] (observe pool2))) = 1
   \<and> \<not> (signals (exec round2 (runInternal 2 [7, 9] (observe pool2))) 0 = 1 \<and>
        started (exec round2 (runInternal 2 [7, 9] (observe pool2))) =
          int (starting (exec round2 (runInternal 2 [7, 9] (observe pool2)))))"
  by (simp add: pool2_def round2_def exec_defs)

text \<open>
  C4. Let \<open>0 < maxThreads < 2\<^sup>3\<^sup>1\<close> and let the constructor of the static pool run
  under any schedule. While some thread below \<open>maxThreads\<close> has not signalled, the
  constructing thread cannot leave \<^verbatim>\<open>started.acquire(maxThreads)\<close>. When the constructor
  has returned, each of the threads \<open>0 .. maxThreads - 1\<close> has signalled exactly once,
  as the last action of its one \<^verbatim>\<open>initThread\<close> (after \<^verbatim>\<open>initTID\<close>, \<^verbatim>\<open>initPTS\<close> and
  the binding), the counter is \<open>maxThreads\<close> and the pool is quiescent. From every state
  the constructor can still return, within a bounded number of steps. With
  \<open>maxThreads = 1\<close> no thread is ever created.
\<close>

theorem constructor_waits_for_all:
  assumes "0 < mt" and "mt < 2 ^ 31"
  shows "(mpc (exec sched (getSystemThreadPool mt env :: 'c pool)) = MIdle \<longrightarrow>
            (\<forall>t. signals (exec sched (getSystemThreadPool mt env :: 'c pool)) t =
               (if t < mt then 1 else 0)) \<and>
            (\<forall>t. inits (exec sched (getSystemThreadPool mt env :: 'c pool)) t =
               (if t < mt then initThread_actions env t else [])) \<and>
            started (exec sched (getSystemThreadPool mt env :: 'c pool)) = int mt \<and>
            quiescent (exec sched (getSystemThreadPool mt env :: 'c pool)))
    \<and> (mpc (exec sched (getSystemThreadPool mt env :: 'c pool)) = MCtorWait \<and>
        (\<exists>t<mt. signals (exec sched (getSystemThreadPool mt env :: 'c pool)) t = 0) \<longrightarrow>
          step EvMain (exec sched (getSystemThreadPool mt env :: 'c pool)) = None)
    \<and> (\<exists>more. mpc (exec more (exec sched (getSystemThreadPool mt env :: 'c pool))) = MIdle)
    \<and> taken sched (getSystemThreadPool mt env :: 'c pool) \<le>
        ctor_measure mt (getSystemThreadPool mt env :: 'c pool)
    \<and> (mt = 1 \<longrightarrow>
          (\<forall>j. threads (exec sched (getSystemThreadPool mt env :: 'c pool)) j = NoThread) \<and>
          (\<forall>t. wpc (exec sched (getSystemThreadPool mt env :: 'c pool)) t = WNone))"
proof -
  let ?init = "getSystemThreadPool mt env :: 'c pool"
  let ?s = "exec sched ?init"
  have inv0: "ctor_inv mt env ?init"
    using assms by (rule ctor_inv_initial)
  have inv: "ctor_inv mt env ?s"
    using inv0 by (rule ctor_exec_preserves)
  have A: "mpc ?s = MIdle \<longrightarrow>
      (\<forall>t. signals ?s t = (if t < mt then 1 else 0)) \<and>
      (\<forall>t. inits ?s t = (if t < mt then initThread_actions env t else [])) \<and>
      started ?s = int mt \<and> quiescent ?s"
  proof
    assume idle: "mpc ?s = MIdle"
    show "(\<forall>t. signals ?s t = (if t < mt then 1 else 0)) \<and>
        (\<forall>t. inits ?s t = (if t < mt then initThread_actions env t else [])) \<and>
        started ?s = int mt \<and> quiescent ?s"
      using ctor_returned [OF inv idle] by blast
  qed
  have B: "mpc ?s = MCtorWait \<and> (\<exists>t<mt. signals ?s t = 0) \<longrightarrow> step EvMain ?s = None"
  proof
    assume a: "mpc ?s = MCtorWait \<and> (\<exists>t<mt. signals ?s t = 0)"
    show "step EvMain ?s = None"
    proof (cases "main_step ?s")
      case None
      then show ?thesis by simp
    next
      case (Some s')
      then have s': "s' = ?s\<lparr>mpc := MIdle\<rparr>"
        using a by (auto simp: main_step_def split: if_splits)
      have "ctor_inv mt env s'"
        using inv Some by (rule ctor_main_preserves)
      moreover have "mpc s' = MIdle"
        by (simp add: s')
      ultimately have "signals s' t = (if t < mt then 1 else 0)" for t
        by (rule ctor_returned(2))
      then have "signals ?s t = (if t < mt then 1 else 0)" for t
        by (simp add: s')
      then show ?thesis
        using a by auto
    qed
  qed
  have C: "\<exists>more. mpc (exec more ?s) = MIdle"
    using inv by (rule ctor_can_return)
  have D: "taken sched ?init \<le> ctor_measure mt ?init"
  proof (rule taken_bounded [where I = "ctor_inv mt env"])
    show "ctor_inv mt env s' \<and> ctor_measure mt s' < ctor_measure mt x"
      if "ctor_inv mt env x" "step e x = Some s'" for x :: "'c pool" and e s'
      using ctor_step_preserves [OF that] ctor_measure_decreases [OF that] by simp
  qed (rule inv0)
  have E: "mt = 1 \<longrightarrow> (\<forall>j. threads ?s j = NoThread) \<and> (\<forall>t. wpc ?s t = WNone)"
  proof
    assume one: "mt = 1"
    note h = ctor_inv_handles [OF inv]
    have le: "spawn_index mt (mpc ?s) \<le> 1"
      using spawn_index_le [OF ctor_inv_main [OF inv] assms(1)] one by simp
    have "threads ?s j = NoThread" for j
    proof (rule ccontr)
      assume "threads ?s j \<noteq> NoThread"
      then have "0 < j \<and> j < spawn_index mt (mpc ?s)"
        using h unfolding handles_ok_def by blast
      then show False using le by simp
    qed
    moreover have "next_tid ?s = 0"
      using next_tid_le [OF h] spawn_index_le [OF ctor_inv_main [OF inv] assms(1)] le by simp
    then have "wpc ?s t = WNone" for t
      using ctor_inv_worker [OF inv, of t] by (cases "t = 0") (simp_all add: worker_ready_def)
    ultimately show "(\<forall>j. threads ?s j = NoThread) \<and> (\<forall>t. wpc ?s t = WNone)"
      by blast
  qed
  show ?thesis
    by (intro conjI A B C D E)
qed

theorem constructor_waits_for_all_witness:
  "0 < (5 :: nat) \<and> (5 :: nat) < 2 ^ 31
   \<and> mpc (exec ctor5 (getSystemThreadPool 5 (\<lambda>_. False) :: nat pool)) = MIdle
   \<and> signals (exec ctor5 (getSystemThreadPool 5 (\<lambda>_. False) :: nat pool)) 4 = 1
   \<and> signals (exec ctor5 (getSystemThreadPool 5 (\<lambda>_. False) :: nat pool)) 5 = 0
   \<and> inits (exec ctor5 (getSystemThreadPool 5 (\<lambda>_. False) :: nat pool)) 2 =
       [InitTID 2, InitPTS, BindThreadToProcessor 2, StartedRelease]
   \<and> started (exec ctor5 (getSystemThreadPool 5 (\<lambda>_. False) :: nat pool)) = 5
   \<and> quiescent (exec ctor5 (getSystemThreadPool 5 (\<lambda>_. False) :: nat pool))
   \<and> mpc (exec [EvMain, EvMain, EvMain, EvMain] (getSystemThreadPool 1 (\<lambda>_. False) :: nat pool)) = MIdle
   \<and> threads (exec [EvMain, EvMain, EvMain, EvMain] (getSystemThreadPool 1 (\<lambda>_. False) :: nat pool)) 1 =
       NoThread"
proof -
  have 5: "0 < (5 :: nat)" "(5 :: nat) < 2 ^ 31" and 1: "0 < (1 :: nat)" "(1 :: nat) < 2 ^ 31"
    by simp_all
  have i5: "mpc (exec ctor5 (getSystemThreadPool 5 (\<lambda>_. False) :: nat pool)) = MIdle"
    using pool5_idle unfolding pool5_eq .
  have i1: "mpc (exec [EvMain, EvMain, EvMain, EvMain] (getSystemThreadPool 1 (\<lambda>_. False) :: nat pool)) = MIdle"
    by (simp add: exec_defs)
  show ?thesis
    using constructor_waits_for_all [OF 5, of ctor5 "\<lambda>_. False", where ?'c = nat]
      constructor_waits_for_all [OF 1, of "[EvMain, EvMain, EvMain, EvMain]" "\<lambda>_. False", where ?'c = nat]
      i5 i1
    by (simp add: initThread_actions_def)
qed

text \<open>
  C5, as the code has it. Let \<open>0 < maxThreads < 2\<^sup>3\<^sup>1\<close>. When the body of the constructor
  of the static pool starts, no thread has released the barrier and the counter
  \<^verbatim>\<open>started\<close> is zero. Under every schedule the counter is the number of release
  operations made so far, at most one by each thread below \<open>maxThreads\<close> and none by
  any other. When the constructing thread waits in \<^verbatim>\<open>started.acquire(maxThreads)\<close> it
  has released the barrier itself, in \<^verbatim>\<open>initThread(0)\<close>, so the counter is between 1 and
  \<open>maxThreads\<close>; it can leave the wait only when the counter is \<open>maxThreads\<close> and each
  of the threads \<open>0 .. maxThreads - 1\<close> has released once.
\<close>

theorem startup_count_from_zero:
  assumes "0 < mt" and "mt < 2 ^ 31"
  shows "mpc (getSystemThreadPool mt env :: 'c pool) = MCtorInit
    \<and> started (getSystemThreadPool mt env :: 'c pool) = 0
    \<and> (\<forall>t. signals (getSystemThreadPool mt env :: 'c pool) t = 0)
    \<and> started (exec sched (getSystemThreadPool mt env :: 'c pool)) =
        int (\<Sum>t<mt. signals (exec sched (getSystemThreadPool mt env :: 'c pool)) t)
    \<and> (\<forall>t. signals (exec sched (getSystemThreadPool mt env :: 'c pool)) t \<le> 1)
    \<and> (\<forall>t. mt \<le> t \<longrightarrow> signals (exec sched (getSystemThreadPool mt env :: 'c pool)) t = 0)
    \<and> (mpc (exec sched (getSystemThreadPool mt env :: 'c pool)) = MCtorWait \<longrightarrow>
          signals (exec sched (getSystemThreadPool mt env :: 'c pool)) 0 = 1 \<and>
          1 \<le> started (exec sched (getSystemThreadPool mt env :: 'c pool)) \<and>
          started (exec sched (getSystemThreadPool mt env :: 'c pool)) \<le> int mt)
    \<and> (mpc (exec sched (getSystemThreadPool mt env :: 'c pool)) = MCtorWait \<and>
        step EvMain (exec sched (getSystemThreadPool mt env :: 'c pool)) \<noteq> None \<longrightarrow>
          started (exec sched (getSystemThreadPool mt env :: 'c pool)) = int mt \<and>
          (\<forall>t<mt. signals (exec sched (getSystemThreadPool mt env :: 'c pool)) t = 1))"
proof -
  let ?init = "getSystemThreadPool mt env :: 'c pool"
  let ?s = "exec sched ?init"
  have inv0: "ctor_inv mt env ?init"
    using assms by (rule ctor_inv_initial)
  have inv: "ctor_inv mt env ?s"
    using inv0 by (rule ctor_exec_preserves)
  note cnt = ctor_inv_count [OF inv]
  have A: "mpc ?init = MCtorInit"
    by (simp add: getSystemThreadPool_def ThreadPool_pthread_def)
  have B: "started ?init = 0"
    by (simp add: getSystemThreadPool_def ThreadPool_pthread_def static_storage_def
        ThinBarrier_ctor_def)
  have C: "\<forall>t. signals ?init t = 0"
    by (simp add: getSystemThreadPool_def ThreadPool_pthread_def static_storage_def)
  have D: "started ?s = int (\<Sum>t<mt. signals ?s t)"
    by (rule cnt(1))
  have E: "\<forall>t. signals ?s t \<le> 1"
    using cnt(3) by blast
  have F: "\<forall>t. mt \<le> t \<longrightarrow> signals ?s t = 0"
    using cnt(2) by blast
  have le: "started ?s \<le> int mt"
  proof -
    have "(\<Sum>t<mt. signals ?s t) \<le> (\<Sum>t<mt. 1)"
      by (intro sum_mono) (rule cnt(3))
    then have "(\<Sum>t<mt. signals ?s t) \<le> mt"
      by simp
    then have "int (\<Sum>t<mt. signals ?s t) \<le> int mt"
      by (simp only: of_nat_le_iff)
    then show ?thesis
      by (simp only: D)
  qed
  have G: "mpc ?s = MCtorWait \<longrightarrow> signals ?s 0 = 1 \<and> 1 \<le> started ?s \<and> started ?s \<le> int mt"
  proof
    assume w: "mpc ?s = MCtorWait"
    then have z: "signals ?s 0 = 1"
      using ctor_inv_zero [OF inv] by simp
    then have "1 \<le> started ?s"
      using ctor_inv_started [OF inv] by simp
    then show "signals ?s 0 = 1 \<and> 1 \<le> started ?s \<and> started ?s \<le> int mt"
      using z le by simp
  qed
  have H: "mpc ?s = MCtorWait \<and> step EvMain ?s \<noteq> None \<longrightarrow>
      started ?s = int mt \<and> (\<forall>t<mt. signals ?s t = 1)"
  proof
    assume a: "mpc ?s = MCtorWait \<and> step EvMain ?s \<noteq> None"
    then obtain s' where Some: "main_step ?s = Some s'"
      by auto
    then have s': "s' = ?s\<lparr>mpc := MIdle\<rparr>"
      using a by (auto simp: main_step_def split: if_splits)
    have i': "ctor_inv mt env s'"
      using inv Some by (rule ctor_main_preserves)
    have m': "mpc s' = MIdle"
      by (simp add: s')
    have "signals s' t = (if t < mt then 1 else 0)" for t
      using i' m' by (rule ctor_returned(2))
    then have 1: "\<forall>t<mt. signals ?s t = 1"
      by (simp add: s')
    have "started s' = int mt"
      using i' m' by (rule ctor_returned(4))
    then have "started ?s = int mt"
      by (simp add: s')
    then show "started ?s = int mt \<and> (\<forall>t<mt. signals ?s t = 1)"
      using 1 by simp
  qed
  show ?thesis
    by (intro conjI A B C D E F G H)
qed

theorem startup_count_from_zero_witness:
  "0 < (3 :: nat) \<and> (3 :: nat) < 2 ^ 31
   \<and> started (getSystemThreadPool 3 (\<lambda>_. False) :: nat pool) = 0
   \<and> mpc (exec ctor_wait3 (getSystemThreadPool 3 (\<lambda>_. False) :: nat pool)) = MCtorWait
   \<and> started (exec ctor_wait3 (getSystemThreadPool 3 (\<lambda>_. False) :: nat pool)) = 1
   \<and> (\<Sum>t<3. signals (exec ctor_wait3 (getSystemThreadPool 3 (\<lambda>_. False) :: nat pool)) t) = 1
   \<and> step EvMain (exec ctor_wait3 (getSystemThreadPool 3 (\<lambda>_. False) :: nat pool)) = None
   \<and> mpc (exec ctor_ready2 (getSystemThreadPool 2 (\<lambda>_. False) :: nat pool)) = MCtorWait
   \<and> step EvMain (exec ctor_ready2 (getSystemThreadPool 2 (\<lambda>_. False) :: nat pool)) \<noteq> None
   \<and> started (exec ctor_ready2 (getSystemThreadPool 2 (\<lambda>_. False) :: nat pool)) = 2
   \<and> signals (exec ctor_ready2 (getSystemThreadPool 2 (\<lambda>_. False) :: nat pool)) 1 = 1"
proof -
  have 3: "0 < (3 :: nat)" "(3 :: nat) < 2 ^ 31" and 2: "0 < (2 :: nat)" "(2 :: nat) < 2 ^ 31"
    by simp_all
  have w3: "mpc (exec ctor_wait3 (getSystemThreadPool 3 (\<lambda>_. False) :: nat pool)) = MCtorWait"
    "started (exec ctor_wait3 (getSystemThreadPool 3 (\<lambda>_. False) :: nat pool)) = 1"
    "step EvMain (exec ctor_wait3 (getSystemThreadPool 3 (\<lambda>_. False) :: nat pool)) = None"
    by (simp_all add: ctor_wait3_def exec_defs)
  have w2: "mpc (exec ctor_ready2 (getSystemThreadPool 2 (\<lambda>_. False) :: nat pool)) = MCtorWait"
    "step EvMain (exec ctor_ready2 (getSystemThreadPool 2 (\<lambda>_. False) :: nat pool)) \<noteq> None"
    by (simp_all add: ctor_ready2_def exec_defs)
  show ?thesis
    using startup_count_from_zero [OF 3, of "\<lambda>_. False" ctor_wait3, where ?'c = nat]
      startup_count_from_zero [OF 2, of "\<lambda>_. False" ctor_ready2, where ?'c = nat]
      w3 w2
    by (simp del: of_nat_sum)
qed

text \<open>
  C5 as stated fails: the constructing thread of a pool of three reaches
  \<^verbatim>\<open>started.acquire(3)\<close> with the counter at 1, its own release, before any spawned
  thread has moved; and in a pool of two whose spawned thread has run \<^verbatim>\<open>initThread\<close>
  while the constructing thread was still in its loop, the wait begins with the counter
  at 2. The counter is not zero when the wait begins.
\<close>

theorem wait_begins_after_release:
  "mpc (exec ctor_wait3 (getSystemThreadPool 3 (\<lambda>_. False) :: nat pool)) = MCtorWait
   \<and> started (exec ctor_wait3 (getSystemThreadPool 3 (\<lambda>_. False) :: nat pool)) = 1
   \<and> started (exec ctor_wait3 (getSystemThreadPool 3 (\<lambda>_. False) :: nat pool)) \<noteq> 0
   \<and> signals (exec ctor_wait3 (getSystemThreadPool 3 (\<lambda>_. False) :: nat pool)) 0 = 1
   \<and> mpc (exec (butlast ctor_early2) (getSystemThreadPool 2 (\<lambda>_. False) :: nat pool)) = MCtorSpawn 2
   \<and> mpc (exec ctor_early2 (getSystemThreadPool 2 (\<lambda>_. False) :: nat pool)) = MCtorWait
   \<and> started (exec ctor_early2 (getSystemThreadPool 2 (\<lambda>_. False) :: nat pool)) = 2
   \<and> started (exec ctor_early2 (getSystemThreadPool 2 (\<lambda>_. False) :: nat pool)) \<noteq> 0"
  by (simp add: ctor_wait3_def ctor_early2_def exec_defs)

text \<open>
  C7. Let the pool be quiescent and let the destructor run under any schedule. What the
  destructor has done is at every moment a prefix of: set \<^verbatim>\<open>shutdown\<close>, clear the work
  range, one \<^verbatim>\<open>starts[i].release()\<close> for each \<open>i = 1 .. maxThreads - 1\<close> in order, one
  \<^verbatim>\<open>pthread_join\<close> for each handle in order, free the arrays. When it has finished it
  has done all of it and every spawned thread has left \<^verbatim>\<open>launch\<close>. From every state
  the destructor can still finish, within a bounded number of steps.
\<close>

theorem destructor_stops_all:
  fixes s :: "'c pool"
  assumes "quiescent s"
  shows "(mpc (exec sched (destroy s)) = MDead \<longrightarrow>
            dtor_trace (exec sched (destroy s)) =
              dtor_trace s @ [SetShutdown, ClearWork] @ map ReleaseGate [1..<maxThreads s] @
              map JoinThread [1..<maxThreads s] @ [FreeArrays] \<and>
            shutdown (exec sched (destroy s)) \<and> work (exec sched (destroy s)) = [] \<and>
            (\<forall>t. 0 < t \<and> t < maxThreads s \<longrightarrow> wpc (exec sched (destroy s)) t = WExit))
    \<and> (\<exists>rest. dtor_trace (exec sched (destroy s)) @ rest =
          dtor_trace s @ [SetShutdown, ClearWork] @ map ReleaseGate [1..<maxThreads s] @
          map JoinThread [1..<maxThreads s] @ [FreeArrays])
    \<and> (\<exists>more. mpc (exec more (exec sched (destroy s))) = MDead)
    \<and> taken sched (destroy s) \<le> dtor_measure (destroy s)"
proof -
  let ?s = "exec sched (destroy s)"
  have inv0: "dtor_inv s (destroy s)"
    using assms by (rule dtor_inv_initial)
  have inv: "dtor_inv s ?s"
    using inv0 by (rule dtor_exec_preserves)
  have A: "mpc ?s = MDead \<longrightarrow>
      dtor_trace ?s = dtor_trace s @ [SetShutdown, ClearWork] @ map ReleaseGate [1..<maxThreads s] @
        map JoinThread [1..<maxThreads s] @ [FreeArrays] \<and>
      shutdown ?s \<and> work ?s = [] \<and> (\<forall>t. 0 < t \<and> t < maxThreads s \<longrightarrow> wpc ?s t = WExit)"
  proof
    assume dead: "mpc ?s = MDead"
    show "dtor_trace ?s = dtor_trace s @ [SetShutdown, ClearWork] @
        map ReleaseGate [1..<maxThreads s] @ map JoinThread [1..<maxThreads s] @ [FreeArrays] \<and>
      shutdown ?s \<and> work ?s = [] \<and> (\<forall>t. 0 < t \<and> t < maxThreads s \<longrightarrow> wpc ?s t = WExit)"
      using dtor_finished [OF inv dead] by blast
  qed
  have B: "\<exists>rest. dtor_trace ?s @ rest =
      dtor_trace s @ [SetShutdown, ClearWork] @ map ReleaseGate [1..<maxThreads s] @
      map JoinThread [1..<maxThreads s] @ [FreeArrays]"
    using dtor_inv_main [OF inv] by (rule dtor_trace_prefix)
  have C: "\<exists>more. mpc (exec more ?s) = MDead"
    using inv by (rule dtor_can_finish)
  have D: "taken sched (destroy s) \<le> dtor_measure (destroy s)"
  proof (rule taken_bounded [where I = "dtor_inv s"])
    show "dtor_inv s s' \<and> dtor_measure s' < dtor_measure x"
      if "dtor_inv s x" "step e x = Some s'" for x e s'
      using dtor_step_preserves [OF that] dtor_measure_decreases [OF that] by simp
  qed (rule inv0)
  show ?thesis
    by (intro conjI A B C D)
qed

theorem destructor_stops_all_witness:
  "quiescent after5
   \<and> mpc (exec stop5 (destroy after5)) = MDead
   \<and> dtor_trace (exec stop5 (destroy after5)) =
       [SetShutdown, ClearWork, ReleaseGate 1, ReleaseGate 2, ReleaseGate 3, ReleaseGate 4,
        JoinThread 1, JoinThread 2, JoinThread 3, JoinThread 4, FreeArrays]
   \<and> shutdown (exec stop5 (destroy after5))
   \<and> wpc (exec stop5 (destroy after5)) 1 = WExit
   \<and> wpc (exec stop5 (destroy after5)) 4 = WExit"
proof -
  have m: "maxThreads after5 = 5"
    by (simp add: after5_def pool5_def round5_def exec_defs)
  have u: "[Suc 0..<5] = [Suc 0, 2, 3, 4]"
    by (simp add: upt_rec)
  show ?thesis
    using destructor_stops_all [OF quiescent_after5, of stop5] stop5_dead quiescent_after5
    by (simp add: m u)
qed

end
